theory Spec2Isabelle
  imports Main "HOL-Library.Sublist" "HOL-Library.Char_ord" "HOL-Library.List_Lexorder"
    "HOL-Library.AList" "HOL-Library.Multiset"
begin

section \<open>Strings and file names\<close>

text \<open>
  Python strings are modelled as \<^typ>\<open>string\<close>. The patterns of the script only
  mention ASCII characters, and the only character class they use is \<^verbatim>\<open>.\<close>, which
  matches every character except the line feed.
\<close>

definition newline :: char where
  "newline = CHR 0x0A"

text \<open>
  \<^verbatim>\<open>os.path.basename(p)\<close> (POSIX): the part of \<^verbatim>\<open>p\<close> after its last slash,
  \<^verbatim>\<open>p[p.rfind('/') + 1:]\<close>.
\<close>

definition basename :: "string \<Rightarrow> string" where
  "basename p = rev (takeWhile (\<lambda>c. c \<noteq> CHR ''/'') (rev p))"

fun strip_prefix :: "string \<Rightarrow> string \<Rightarrow> string option" where
  "strip_prefix [] s = Some s"
| "strip_prefix (c # cs) [] = None"
| "strip_prefix (c # cs) (d # ds) = (if c = d then strip_prefix cs ds else None)"

definition strip_suffix :: "string \<Rightarrow> string \<Rightarrow> string option" where
  "strip_suffix suf s = map_option rev (strip_prefix (rev suf) (rev s))"

text \<open>The first of the given endings that the string has, removed.\<close>

fun strip_any :: "string list \<Rightarrow> string \<Rightarrow> string option" where
  "strip_any [] s = None"
| "strip_any (e # es) s =
     (case strip_suffix e s of Some t \<Rightarrow> Some t | None \<Rightarrow> strip_any es s)"

section \<open>The regular expressions of the script\<close>

text \<open>
  Every pattern of the script ends in \<^verbatim>\<open>\.f(ast)?q(\.gz)?$\<close>. The strings matched by
  \<^verbatim>\<open>\.f(ast)?q(\.gz)?\<close> are the four below; \<^verbatim>\<open>$\<close> (without the MULTILINE flag)
  matches at the end of the string and also just before a line feed that is the last
  character of the string.
\<close>

definition fastq_ext :: "string list" where
  "fastq_ext = [''.fastq.gz'', ''.fq.gz'', ''.fastq'', ''.fq'']"

text \<open>
  \<open>search_ext b\<close> is the match of \<^verbatim>\<open>\.f(ast)?q(\.gz)?$\<close> in \<open>b\<close>, given as the text
  before the match and the text after it (empty, or the final line feed). No string
  has two such matches: the extension is fixed by the last characters of the string.
\<close>

definition search_ext :: "string \<Rightarrow> (string \<times> string) option" where
  "search_ext b =
     (case strip_any fastq_ext b of
        Some t \<Rightarrow> Some (t, [])
      | None \<Rightarrow>
          (case strip_suffix [newline] b of
             None \<Rightarrow> None
           | Some b' \<Rightarrow> map_option (\<lambda>t. (t, [newline])) (strip_any fastq_ext b')))"

text \<open>\<^verbatim>\<open>re.sub(r'\.f(ast)?q(\.gz)?$', '', basename)\<close>\<close>

definition strip_fastq_ext :: "string \<Rightarrow> string" where
  "strip_fastq_ext b = (case search_ext b of None \<Rightarrow> b | Some (t, rest) \<Rightarrow> t @ rest)"

text \<open>
  A mate pattern \<^verbatim>\<open>(.+)D\.f(ast)?q(\.gz)?$\<close> is \<open>MatePattern D False\<close>, and
  \<^verbatim>\<open>(.+)D(_001)?\.f(ast)?q(\.gz)?$\<close> is \<open>MatePattern D True\<close>, for a literal \<open>D\<close>
  (the mate designator).
\<close>

datatype mate_pattern = MatePattern (designator: string) (lane: bool)

text \<open>
  \<open>re_match p b\<close> is \<^verbatim>\<open>re.match(p, b)\<close>: \<open>None\<close> when there is no match, and
  \<^verbatim>\<open>group(1)\<close> of the match otherwise. \<^verbatim>\<open>re.match\<close> anchors the pattern at the start
  of the string, so group 1 is everything before the designator; \<^verbatim>\<open>.+\<close> needs at least
  one character and no line feed. For the eight patterns of the script, the strings
  that \<open>re_match\<close> accepts are those of the regular expression, with the stem as
  result: lemma \<open>re_match_iff\<close> below.
\<close>

definition re_match :: "mate_pattern \<Rightarrow> string \<Rightarrow> string option" where
  "re_match p b =
     (case search_ext b of
        None \<Rightarrow> None
      | Some (c, rest) \<Rightarrow>
          (case strip_any (designator p # (if lane p then [designator p @ ''_001''] else [])) c of
             None \<Rightarrow> None
           | Some s \<Rightarrow> if s \<noteq> [] \<and> newline \<notin> set s then Some s else None))"

type_synonym rule = "mate_pattern \<times> mate_pattern"

definition paired_patterns :: "rule list" where
  "paired_patterns =
     [(MatePattern ''_R1'' True, MatePattern ''_R2'' True),
      (MatePattern ''_1'' False, MatePattern ''_2'' False),
      (MatePattern ''.R1'' False, MatePattern ''.R2'' False),
      (MatePattern ''.1'' False, MatePattern ''.2'' False)]"

section \<open>The samples dictionary\<close>

text \<open>
  The value of a sample is a dictionary with the keys \<^verbatim>\<open>'R1'\<close> and \<^verbatim>\<open>'R2'\<close>, each
  of which may be missing. \<^verbatim>\<open>samples\<close> is a \<^verbatim>\<open>defaultdict(dict)\<close>: an association
  list in insertion order, as Python dictionaries are.
\<close>

record reads =
  R1 :: "string option"
  R2 :: "string option"

type_synonym samples = "(string \<times> reads) list"

text \<open>\<^verbatim>\<open>samples[name]\<close>: the dictionary of the sample, a new empty one when it has none.\<close>

definition get_reads :: "samples \<Rightarrow> string \<Rightarrow> reads" where
  "get_reads samples name =
     (case map_of samples name of None \<Rightarrow> \<lparr>R1 = None, R2 = None\<rparr> | Some r \<Rightarrow> r)"

text \<open>\<^verbatim>\<open>samples[name]['R1'] = file\<close> and \<^verbatim>\<open>samples[name]['R2'] = file\<close>\<close>

definition set_R1 :: "string \<Rightarrow> string \<Rightarrow> samples \<Rightarrow> samples" where
  "set_R1 name file samples =
     AList.update name ((get_reads samples name)\<lparr>R1 := Some file\<rparr>) samples"

definition set_R2 :: "string \<Rightarrow> string \<Rightarrow> samples \<Rightarrow> samples" where
  "set_R2 name file samples =
     AList.update name ((get_reads samples name)\<lparr>R2 := Some file\<rparr>) samples"

section \<open>parse\_fastq\_pairs\<close>

text \<open>
  \<^verbatim>\<open>remaining_files\<close> is a Python set. The order in which a set yields its elements is
  not defined by the language, and it can change when elements are removed from the set.
  The model takes this order as a parameter: \<open>rank k\<close> ranks the files at stage \<open>k\<close>,
  where stage \<open>0\<close> is \<^verbatim>\<open>set(fastq_files)\<close> and stage \<open>k\<close> is the set after the
  \<open>k\<close>-th \<^verbatim>\<open>remaining_files -= matched_files\<close>; the set yields its files by increasing
  rank. Every sequence of orders of a run is given by some \<open>rank\<close> (rank the files of a
  stage by their positions), and every \<open>rank\<close> yields the files of a stage once each.
  Between two removals the set is unchanged and yields its files in the same order each
  time.
\<close>

type_synonym set_order = "nat \<Rightarrow> string \<Rightarrow> nat"

text \<open>
  The inner loop of the script, with its \<^verbatim>\<open>break\<close>, takes the first file of
  \<^verbatim>\<open>remaining_files\<close> whose basename matches the mate-2 pattern with the stem of
  \<^verbatim>\<open>file1\<close>.
\<close>

definition find_mate2 :: "mate_pattern \<Rightarrow> string \<Rightarrow> string list \<Rightarrow> string option" where
  "find_mate2 r2_pattern sample_name remaining_files =
     find (\<lambda>file2. re_match r2_pattern (basename file2) = Some sample_name) remaining_files"

text \<open>
  The loop \<^verbatim>\<open>for file1 in remaining_files\<close> of one rule. Its state is \<^verbatim>\<open>samples\<close>
  and \<^verbatim>\<open>matched_files\<close>; the third argument is what is left to iterate over.
\<close>

fun pair_loop :: "rule \<Rightarrow> string list \<Rightarrow> string list \<Rightarrow> samples \<times> string set
    \<Rightarrow> samples \<times> string set" where
  "pair_loop (r1_pattern, r2_pattern) remaining_files [] (samples, matched_files) =
     (samples, matched_files)"
| "pair_loop (r1_pattern, r2_pattern) remaining_files (file1 # rest) (samples, matched_files) =
     (case re_match r1_pattern (basename file1) of
        None \<Rightarrow> pair_loop (r1_pattern, r2_pattern) remaining_files rest (samples, matched_files)
      | Some sample_name \<Rightarrow>
          (case find_mate2 r2_pattern sample_name remaining_files of
             None \<Rightarrow>
               pair_loop (r1_pattern, r2_pattern) remaining_files rest (samples, matched_files)
           | Some file2 \<Rightarrow>
               pair_loop (r1_pattern, r2_pattern) remaining_files rest
                 (set_R2 sample_name file2 (set_R1 sample_name file1 samples),
                  insert file2 (insert file1 matched_files))))"

text \<open>
  One round of \<^verbatim>\<open>for r1_pattern, r2_pattern in paired_patterns\<close>: the loop over the
  files, then \<^verbatim>\<open>remaining_files -= matched_files\<close>, after which the set yields the files
  left in the order of the next stage. The state is the number of the stage,
  \<^verbatim>\<open>samples\<close> and the sequence of \<^verbatim>\<open>remaining_files\<close>.
\<close>

definition rule_pass :: "set_order \<Rightarrow> nat \<times> samples \<times> string list \<Rightarrow> rule
    \<Rightarrow> nat \<times> samples \<times> string list" where
  "rule_pass rank st rule =
     (case st of (stage, samples, remaining_files) \<Rightarrow>
        (case pair_loop rule remaining_files remaining_files (samples, {}) of
           (samples', matched_files) \<Rightarrow>
             (Suc stage, samples',
              sort_key (rank (Suc stage)) (filter (\<lambda>f. f \<notin> matched_files) remaining_files))))"

text \<open>The last loop: the files left are single-end.\<close>

fun single_end :: "string list \<Rightarrow> samples \<Rightarrow> samples" where
  "single_end [] samples = samples"
| "single_end (file # rest) samples =
     single_end rest (set_R1 (strip_fastq_ext (basename file)) file samples)"

text \<open>
  \<^verbatim>\<open>set(fastq_files)\<close> has each file of the list once and yields them in the order of
  stage \<open>0\<close>.
\<close>

definition parse_fastq_pairs :: "set_order \<Rightarrow> string list \<Rightarrow> samples" where
  "parse_fastq_pairs rank fastq_files =
     (case foldl (rule_pass rank) (0, [], sort_key (rank 0) (remdups fastq_files))
             paired_patterns of
        (stage, samples, remaining_files) \<Rightarrow> single_end remaining_files samples)"

section \<open>write\_samplesheet\<close>

text \<open>
  \<^verbatim>\<open>s.replace(old, new)\<close>: the occurrences of \<^verbatim>\<open>old\<close> are found from left to right
  and do not overlap. \<open>replace_scan old new k s\<close> scans \<open>s\<close> with \<open>k\<close> characters of
  the occurrence found last still to skip. For an empty \<^verbatim>\<open>old\<close> Python puts
  \<^verbatim>\<open>new\<close> before every character and at the end.
\<close>

fun replace_scan :: "string \<Rightarrow> string \<Rightarrow> nat \<Rightarrow> string \<Rightarrow> string" where
  "replace_scan old new k [] = []"
| "replace_scan old new k (c # cs) =
     (if 0 < k then replace_scan old new (k - 1) cs
      else if prefix old (c # cs) then new @ replace_scan old new (length old - 1) cs
      else c # replace_scan old new 0 cs)"

definition str_replace :: "string \<Rightarrow> string \<Rightarrow> string \<Rightarrow> string" where
  "str_replace old new s =
     (if old = [] then concat (map (\<lambda>c. new @ [c]) s) @ new else replace_scan old new 0 s)"

definition header :: string where
  "header = ''sample,fastq_1,fastq_2,strandedness'' @ [newline]"

text \<open>
  \<^verbatim>\<open>s3_prefix\<close> is \<^verbatim>\<open>None\<close> or the dictionary
  \<^verbatim>\<open>{'local': local, 's3': s3}\<close> that \<^verbatim>\<open>main\<close> builds: \<open>Some (local, s3)\<close>.
  The loop over the sorted items appends one line to the file for each of them; the
  last argument is the text written so far.
\<close>

fun write_rows :: "(string \<times> reads) list \<Rightarrow> string \<Rightarrow> (string \<times> string) option \<Rightarrow> string
    \<Rightarrow> string" where
  "write_rows [] strandedness s3_prefix f = f"
| "write_rows ((sample_name, reads) # rest) strandedness s3_prefix f =
     (let r1 = (case R1 reads of None \<Rightarrow> [] | Some p \<Rightarrow> p);
          r2 = (case R2 reads of None \<Rightarrow> [] | Some p \<Rightarrow> p);
          r1' = (case s3_prefix of None \<Rightarrow> r1 | Some (local, s3) \<Rightarrow> str_replace local s3 r1);
          r2' = (case s3_prefix of
                   None \<Rightarrow> r2
                 | Some (local, s3) \<Rightarrow> if r2 \<noteq> [] then str_replace local s3 r2 else r2)
      in write_rows rest strandedness s3_prefix
           (f @ sample_name @ '','' @ r1' @ '','' @ r2' @ '','' @ strandedness @ [newline]))"

text \<open>
  The text of the output file. The keys of a dictionary are distinct, so
  \<^verbatim>\<open>sorted(samples.items())\<close> orders the items by sample name. The summary that the
  function prints on the standard output is left out.
\<close>

definition write_samplesheet :: "samples \<Rightarrow> string \<Rightarrow> (string \<times> string) option \<Rightarrow> string" where
  "write_samplesheet samples strandedness s3_prefix =
     write_rows (sort_key fst samples) strandedness s3_prefix header"

section \<open>Notions used to state the properties\<close>

text \<open>
  A slot of the result is a sample name with one of the two keys; \<open>slot samples (name, m)\<close>
  is the file held there, if any.
\<close>

datatype mate = Mate1 | Mate2

fun slot :: "samples \<Rightarrow> string \<times> mate \<Rightarrow> string option" where
  "slot samples (name, Mate1) = (case map_of samples name of None \<Rightarrow> None | Some r \<Rightarrow> R1 r)"
| "slot samples (name, Mate2) = (case map_of samples name of None \<Rightarrow> None | Some r \<Rightarrow> R2 r)"

text \<open>All the values of the slots, record by record: the mate-1 file, then the mate-2 file.\<close>

fun slot_files :: "samples \<Rightarrow> string list" where
  "slot_files [] = []"
| "slot_files ((name, r) # rest) =
     (case R1 r of None \<Rightarrow> [] | Some f \<Rightarrow> [f]) @ (case R2 r of None \<Rightarrow> [] | Some f \<Rightarrow> [f])
       @ slot_files rest"

text \<open>A dictionary has distinct keys; every record of the result has a mate-1 file.\<close>

definition well_formed :: "samples \<Rightarrow> bool" where
  "well_formed samples \<longleftrightarrow>
     distinct (map fst samples) \<and> (\<forall>(name, r)\<in>set samples. R1 r \<noteq> None)"

text \<open>
  The two assignments that the inner loop makes when it finds a mate-2 file: a binding
  of the pair \<open>file1\<close>, \<open>file2\<close> under the stem \<open>sample_name\<close>.
\<close>

definition bind :: "samples \<Rightarrow> string \<times> string \<times> string \<Rightarrow> samples" where
  "bind samples b = (case b of (sample_name, file1, file2) \<Rightarrow>
     set_R2 sample_name file2 (set_R1 sample_name file1 samples))"

text \<open>
  The bindings that the loop of one rule makes, in the order in which it makes them:
  the same traversal as \<open>pair_loop\<close>, recording each binding instead of applying it.
\<close>

fun bindings :: "rule \<Rightarrow> string list \<Rightarrow> string list \<Rightarrow> (string \<times> string \<times> string) list" where
  "bindings (r1_pattern, r2_pattern) remaining_files [] = []"
| "bindings (r1_pattern, r2_pattern) remaining_files (file1 # rest) =
     (case re_match r1_pattern (basename file1) of
        None \<Rightarrow> bindings (r1_pattern, r2_pattern) remaining_files rest
      | Some sample_name \<Rightarrow>
          (case find_mate2 r2_pattern sample_name remaining_files of
             None \<Rightarrow> bindings (r1_pattern, r2_pattern) remaining_files rest
           | Some file2 \<Rightarrow>
               (sample_name, file1, file2) # bindings (r1_pattern, r2_pattern) remaining_files rest))"

definition bound_files :: "(string \<times> string \<times> string) list \<Rightarrow> string set" where
  "bound_files bs = (\<Union>(s, f, g)\<in>set bs. {f, g})"

text \<open>The bindings recorded under one stem.\<close>

definition stem_bindings :: "string \<Rightarrow> (string \<times> string \<times> string) list
    \<Rightarrow> (string \<times> string \<times> string) list" where
  "stem_bindings s bs = filter (\<lambda>b. fst b = s) bs"

text \<open>
  The bindings that the passes of a list of rules make one after the other, from a stage
  and the sequence of its working set on, and the sequence of the files left after
  them.
\<close>

fun all_bindings :: "set_order \<Rightarrow> nat \<Rightarrow> rule list \<Rightarrow> string list
    \<Rightarrow> (string \<times> string \<times> string) list" where
  "all_bindings rank stage [] W = []"
| "all_bindings rank stage (r # rs) W =
     bindings r W W @
     all_bindings rank (Suc stage) rs
       (sort_key (rank (Suc stage)) (filter (\<lambda>f. f \<notin> bound_files (bindings r W W)) W))"

fun unbound :: "set_order \<Rightarrow> nat \<Rightarrow> rule list \<Rightarrow> string list \<Rightarrow> string list" where
  "unbound rank stage [] W = W"
| "unbound rank stage (r # rs) W =
     unbound rank (Suc stage) rs
       (sort_key (rank (Suc stage)) (filter (\<lambda>f. f \<notin> bound_files (bindings r W W)) W))"

text \<open>The sample name of a file that is treated as single-end.\<close>

definition single_name :: "string \<Rightarrow> string" where
  "single_name f = strip_fastq_ext (basename f)"

text \<open>
  What the result is made of: the bindings \<open>bs\<close> in the order in which they are made and
  then the files \<open>rest\<close> that the last loop names. The bindings and the files left of a
  run form a resolution of the input files \<open>fs\<close>: every binding pairs two input files
  that match the two patterns of one rule with the stem of the binding; every input file
  that matches the mate-1 pattern of a rule with a stem that some input file has under
  the mate-2 pattern is in a binding of that stem; and the files left are the input
  files that are in no binding.
\<close>

definition outcome :: "(string \<times> string \<times> string) list \<Rightarrow> string list \<Rightarrow> samples" where
  "outcome bs rest = single_end rest (foldl bind [] bs)"

definition resolution :: "rule list \<Rightarrow> string list \<Rightarrow> (string \<times> string \<times> string) list
    \<Rightarrow> string list \<Rightarrow> bool" where
  "resolution rs fs bs rest \<longleftrightarrow>
     (\<forall>n f g. (n, f, g) \<in> set bs \<longrightarrow>
        (\<exists>r\<in>set rs. f \<in> set fs \<and> g \<in> set fs \<and>
           re_match (fst r) (basename f) = Some n \<and> re_match (snd r) (basename g) = Some n)) \<and>
     (\<forall>r\<in>set rs. \<forall>f\<in>set fs. \<forall>g\<in>set fs. \<forall>n.
        re_match (fst r) (basename f) = Some n \<and> re_match (snd r) (basename g) = Some n
        \<longrightarrow> (\<exists>g'. (n, f, g') \<in> set bs)) \<and>
     set rest = set fs - bound_files bs"

text \<open>
  The literal endings of the stem-free part of a pattern. Two patterns clash when an
  ending of one is the end of an ending of the other: only then can one basename match
  both. A file hits a rule when its basename matches one of the two patterns of the rule.
\<close>

definition endings :: "mate_pattern \<Rightarrow> string list" where
  "endings p = designator p # (if lane p then [designator p @ ''_001''] else [])"

definition clash :: "mate_pattern \<Rightarrow> mate_pattern \<Rightarrow> bool" where
  "clash p q \<longleftrightarrow> (\<exists>e\<in>set (endings p). \<exists>e'\<in>set (endings q). suffix e e' \<or> suffix e' e)"

definition hits :: "rule \<Rightarrow> string \<Rightarrow> bool" where
  "hits r f \<longleftrightarrow>
     re_match (fst r) (basename f) \<noteq> None \<or> re_match (snd r) (basename f) \<noteq> None"

definition patterns :: "rule list \<Rightarrow> mate_pattern list" where
  "patterns rs = map fst rs @ map snd rs"

definition exclusive :: "rule list \<Rightarrow> bool" where
  "exclusive rs \<longleftrightarrow> distinct (patterns rs) \<and>
     (\<forall>p\<in>set (patterns rs). \<forall>q\<in>set (patterns rs). clash p q \<longrightarrow> p = q)"

text \<open>
  A file is paired under a rule, in a set of files, when its basename matches one pattern
  of the rule and the basename of some file of the set matches the other pattern with
  the same stem.
\<close>

definition paired :: "rule \<Rightarrow> string list \<Rightarrow> string \<Rightarrow> bool" where
  "paired r W f \<longleftrightarrow>
     (\<exists>s. re_match (fst r) (basename f) = Some s \<and>
          (\<exists>g\<in>set W. re_match (snd r) (basename g) = Some s)) \<or>
     (\<exists>s. re_match (snd r) (basename f) = Some s \<and>
          (\<exists>g\<in>set W. re_match (fst r) (basename g) = Some s))"

text \<open>
  The destination of a file in a set of input files: the mate-1 or mate-2 slot of its
  stem under the first rule under which it is paired, and the mate-1 slot of its
  single-end name when it is paired under no rule. It depends on the set of the input
  files only, not on their order.
\<close>

fun destination :: "rule list \<Rightarrow> string list \<Rightarrow> string \<Rightarrow> string \<times> mate" where
  "destination [] W f = (single_name f, Mate1)"
| "destination (r # rs) W f =
     (case re_match (fst r) (basename f) of
        Some s \<Rightarrow>
          if \<exists>g\<in>set W. re_match (snd r) (basename g) = Some s then (s, Mate1)
          else destination rs W f
      | None \<Rightarrow>
          (case re_match (snd r) (basename f) of
             Some s \<Rightarrow>
               if \<exists>g\<in>set W. re_match (fst r) (basename g) = Some s then (s, Mate2)
               else destination rs W f
           | None \<Rightarrow> destination rs W f))"

text \<open>
  The state of a run after the first \<open>k\<close> rules, its working set, and the working set and
  the samples after all the rules.
\<close>

definition state_after :: "set_order \<Rightarrow> string list \<Rightarrow> nat \<Rightarrow> nat \<times> samples \<times> string list" where
  "state_after rank fs k =
     foldl (rule_pass rank) (0, [], sort_key (rank 0) (remdups fs)) (take k paired_patterns)"

definition working :: "set_order \<Rightarrow> string list \<Rightarrow> nat \<Rightarrow> string list" where
  "working rank fs k = snd (snd (state_after rank fs k))"

definition unclaimed :: "set_order \<Rightarrow> string list \<Rightarrow> string list" where
  "unclaimed rank fs =
     snd (snd (foldl (rule_pass rank) (0, [], sort_key (rank 0) (remdups fs)) paired_patterns))"

definition paired_samples :: "set_order \<Rightarrow> string list \<Rightarrow> samples" where
  "paired_samples rank fs =
     fst (snd (foldl (rule_pass rank) (0, [], sort_key (rank 0) (remdups fs)) paired_patterns))"

text \<open>
  Two orders for the examples: one that ranks all files alike, so that the set yields
  them as the list has them, and one that ranks a file of the second run directory
  first.
\<close>

definition insertion_order :: set_order where
  "insertion_order k f = 0"

definition run2_first :: set_order where
  "run2_first k f = (if prefix ''run2/'' f then 0 else 1)"

text \<open>A file whose basename matches no pattern of any rule.\<close>

definition completely_unmatched :: "string \<Rightarrow> bool" where
  "completely_unmatched f \<longleftrightarrow> (\<forall>r\<in>set paired_patterns. \<not> hits r f)"

section \<open>The samplesheet as the specification describes it\<close>

text \<open>
  The header, then one row per sample, sorted by sample name. A row has the sample name,
  the mate-1 path, the mate-2 path (empty for a record with no mate-2 file) and the
  strandedness label; the optional remapping of the local prefix is applied to each
  non-empty path.
\<close>

definition fastq_1 :: "(string \<times> string) option \<Rightarrow> reads \<Rightarrow> string" where
  "fastq_1 s3_prefix r =
     (let r1 = (case R1 r of None \<Rightarrow> [] | Some p \<Rightarrow> p)
      in case s3_prefix of None \<Rightarrow> r1 | Some (local, s3) \<Rightarrow> str_replace local s3 r1)"

definition fastq_2 :: "(string \<times> string) option \<Rightarrow> reads \<Rightarrow> string" where
  "fastq_2 s3_prefix r =
     (case R2 r of
        None \<Rightarrow> []
      | Some p \<Rightarrow>
          (case s3_prefix of
             None \<Rightarrow> p
           | Some (local, s3) \<Rightarrow> if p = [] then [] else str_replace local s3 p))"

definition csv_row :: "string \<Rightarrow> (string \<times> string) option \<Rightarrow> string \<times> reads \<Rightarrow> string" where
  "csv_row strandedness s3_prefix item =
     fst item @ '','' @ fastq_1 s3_prefix (snd item) @ '','' @ fastq_2 s3_prefix (snd item)
       @ '','' @ strandedness @ [newline]"

definition samplesheet :: "samples \<Rightarrow> string \<Rightarrow> (string \<times> string) option \<Rightarrow> string" where
  "samplesheet samples strandedness s3_prefix =
     header @ concat (map (csv_row strandedness s3_prefix) (sort_key fst samples))"

section \<open>Evaluation on concrete inputs\<close>

lemmas eval_defs =
  parse_fastq_pairs_def paired_patterns_def rule_pass_def re_match_def search_ext_def
  fastq_ext_def strip_suffix_def basename_def strip_fastq_ext_def set_R1_def set_R2_def
  get_reads_def find_mate2_def newline_def insertion_order_def

section \<open>Auxiliary facts\<close>

subsection \<open>Removing a prefix or a suffix\<close>

lemma strip_prefix_Some_iff: "strip_prefix p s = Some t \<longleftrightarrow> s = p @ t"
  by (induction p s rule: strip_prefix.induct) auto

lemma strip_suffix_Some_iff: "strip_suffix suf s = Some t \<longleftrightarrow> s = t @ suf"
proof -
  have "strip_suffix suf s = Some t \<longleftrightarrow> strip_prefix (rev suf) (rev s) = Some (rev t)"
    by (auto simp: strip_suffix_def)
  also have "\<dots> \<longleftrightarrow> rev s = rev suf @ rev t"
    by (simp add: strip_prefix_Some_iff)
  also have "\<dots> \<longleftrightarrow> s = t @ suf"
    by (metis rev_append rev_rev_ident)
  finally show ?thesis .
qed

lemma strip_suffix_append: "strip_suffix e (c @ e) = Some c"
  by (simp add: strip_suffix_Some_iff)

lemma strip_any_SomeD: "strip_any es s = Some t \<Longrightarrow> \<exists>e\<in>set es. s = t @ e"
  by (induction es) (auto simp: strip_suffix_Some_iff split: option.splits)

subsection \<open>The fastq extension\<close>

lemma strip_any_fastq_ext:
  assumes "x \<in> set fastq_ext" shows "strip_any fastq_ext (c @ x) = Some c"
proof -
  from assms consider "x = ''.fastq.gz''" | "x = ''.fq.gz''" | "x = ''.fastq''" | "x = ''.fq''"
    by (auto simp: fastq_ext_def)
  then show ?thesis
    by cases (simp_all add: fastq_ext_def strip_suffix_def)
qed

lemma strip_any_fastq_ext_newline:
  assumes "x \<in> set fastq_ext" shows "strip_any fastq_ext (c @ x @ [newline]) = None"
proof -
  from assms consider "x = ''.fastq.gz''" | "x = ''.fq.gz''" | "x = ''.fastq''" | "x = ''.fq''"
    by (auto simp: fastq_ext_def)
  then show ?thesis
    by cases (simp_all add: fastq_ext_def strip_suffix_def newline_def)
qed

lemma search_ext_append:
  assumes "x \<in> set fastq_ext"
  shows "search_ext (c @ x) = Some (c, [])" "search_ext (c @ x @ [newline]) = Some (c, [newline])"
proof -
  show "search_ext (c @ x) = Some (c, [])"
    by (simp add: search_ext_def strip_any_fastq_ext[OF assms])
  have "strip_suffix [newline] (c @ x @ [newline]) = Some (c @ x)"
    using strip_suffix_Some_iff[of "[newline]" "c @ x @ [newline]" "c @ x"] by simp
  then show "search_ext (c @ x @ [newline]) = Some (c, [newline])"
    by (simp add: search_ext_def strip_any_fastq_ext_newline[OF assms] strip_any_fastq_ext[OF assms])
qed

lemma search_ext_SomeD:
  assumes "search_ext b = Some (c, rest)"
  shows "\<exists>x\<in>set fastq_ext. b = c @ x @ rest \<and> (rest = [] \<or> rest = [newline])"
proof (cases "strip_any fastq_ext b")
  case (Some t)
  with assms have "t = c" "rest = []" by (simp_all add: search_ext_def)
  with strip_any_SomeD[OF Some] show ?thesis by auto
next
  case None
  with assms obtain b' where b': "strip_suffix [newline] b = Some b'"
    and t: "strip_any fastq_ext b' = Some c" and r: "rest = [newline]"
    by (auto simp: search_ext_def split: option.splits)
  from b' have "b = b' @ [newline]" by (simp add: strip_suffix_Some_iff)
  with strip_any_SomeD[OF t] r show ?thesis by auto
qed

lemma strip_fastq_ext_append:
  assumes "e \<in> set fastq_ext" shows "strip_fastq_ext (c @ e) = c"
proof -
  from assms consider "e = ''.fastq.gz''" | "e = ''.fq.gz''" | "e = ''.fastq''" | "e = ''.fq''"
    by (auto simp: fastq_ext_def)
  then have "strip_any fastq_ext (c @ e) = Some c"
    by cases (simp_all add: fastq_ext_def strip_suffix_def)
  then show ?thesis by (simp add: strip_fastq_ext_def search_ext_def)
qed

subsection \<open>The mate patterns match what the regular expressions match\<close>

lemma re_match_SomeD:
  assumes "re_match p b = Some s"
  shows "\<exists>c rest. search_ext b = Some (c, rest) \<and> (\<exists>e\<in>set (endings p). c = s @ e)"
proof -
  from assms obtain c rest where 1: "search_ext b = Some (c, rest)"
    and 2: "strip_any (endings p) c = Some s"
    unfolding re_match_def endings_def by (auto split: option.splits if_splits)
  from strip_any_SomeD[OF 2] 1 show ?thesis by blast
qed

lemma lane_designator_None:
  assumes "p \<in> set (patterns paired_patterns)" "lane p"
  shows "strip_suffix (designator p) (s @ designator p @ ''_001'') = None"
proof -
  from assms consider "designator p = ''_R1''" | "designator p = ''_R2''"
    by (auto simp: patterns_def paired_patterns_def)
  then show ?thesis
    by cases (simp_all add: strip_suffix_def)
qed

lemma strip_any_endings:
  assumes "p \<in> set (patterns paired_patterns)" "e \<in> set (endings p)"
  shows "strip_any (endings p) (s @ e) = Some s"
proof (cases "e = designator p")
  case True
  then show ?thesis by (simp add: endings_def strip_suffix_append)
next
  case False
  with assms(2) have l: "lane p" and e: "e = designator p @ ''_001''"
    by (auto simp: endings_def split: if_splits)
  have "strip_suffix (designator p @ ''_001'') (s @ designator p @ ''_001'') = Some s"
    using strip_suffix_append[of "designator p @ ''_001''" s] by simp
  with lane_designator_None[OF assms(1) l, of s] show ?thesis
    by (simp add: endings_def e l)
qed

lemma re_match_iff:
  assumes "p \<in> set (patterns paired_patterns)"
  shows "re_match p b = Some s \<longleftrightarrow>
    s \<noteq> [] \<and> newline \<notin> set s \<and>
    (\<exists>e\<in>set (endings p). \<exists>x\<in>set fastq_ext. b = s @ e @ x \<or> b = s @ e @ x @ [newline])"
proof
  assume m: "re_match p b = Some s"
  from re_match_SomeD[OF m] obtain c rest e where
    1: "search_ext b = Some (c, rest)" "e \<in> set (endings p)" "c = s @ e" by blast
  from search_ext_SomeD[OF 1(1)] obtain x where
    2: "x \<in> set fastq_ext" "b = c @ x @ rest" "rest = [] \<or> rest = [newline]" by blast
  from m have "s \<noteq> [] \<and> newline \<notin> set s"
    by (auto simp: re_match_def split: option.splits if_splits)
  moreover from 1 2 have "b = s @ e @ x \<or> b = s @ e @ x @ [newline]" by auto
  ultimately show "s \<noteq> [] \<and> newline \<notin> set s \<and>
    (\<exists>e\<in>set (endings p). \<exists>x\<in>set fastq_ext. b = s @ e @ x \<or> b = s @ e @ x @ [newline])"
    using 1(2) 2(1) by blast
next
  assume a: "s \<noteq> [] \<and> newline \<notin> set s \<and>
    (\<exists>e\<in>set (endings p). \<exists>x\<in>set fastq_ext. b = s @ e @ x \<or> b = s @ e @ x @ [newline])"
  then obtain e x where e: "e \<in> set (endings p)" and x: "x \<in> set fastq_ext"
    and b: "b = (s @ e) @ x \<or> b = (s @ e) @ x @ [newline]" by auto
  from b search_ext_append[OF x, of "s @ e"] obtain rest where "search_ext b = Some (s @ e, rest)"
    by auto
  with strip_any_endings[OF assms e, of s] a show "re_match p b = Some s"
    by (simp add: re_match_def endings_def)
qed

subsection \<open>A basename matches at most one of the eight patterns\<close>

lemma re_match_clash:
  assumes "re_match p b = Some s" "re_match q b = Some t"
  shows "clash p q"
proof -
  from re_match_SomeD[OF assms(1)] obtain c rest e where
    1: "search_ext b = Some (c, rest)" "e \<in> set (endings p)" "c = s @ e" by blast
  from re_match_SomeD[OF assms(2)] obtain c' rest' e' where
    2: "search_ext b = Some (c', rest')" "e' \<in> set (endings q)" "c' = t @ e'" by blast
  from 1 2 have "c' = c" by simp
  with 1 2 have "suffix e c" "suffix e' c" unfolding suffix_def by blast+
  then have "suffix e e' \<or> suffix e' e" using suffix_same_cases by blast
  with 1 2 show ?thesis unfolding clash_def by blast
qed

lemma re_match_same_stem:
  assumes "re_match p b = Some s" "re_match p b = Some t" shows "s = t"
  using assms by simp

lemma clash_paired:
  "p \<in> fst ` set paired_patterns \<union> snd ` set paired_patterns \<Longrightarrow>
   q \<in> fst ` set paired_patterns \<union> snd ` set paired_patterns \<Longrightarrow> clash p q \<Longrightarrow> p = q"
  unfolding paired_patterns_def clash_def endings_def
  by (elim UnE imageE; simp add: suffix_Cons; elim disjE; simp add: suffix_Cons)

subsection \<open>Slots and assignments\<close>

lemma map_of_set_R1: "map_of (set_R1 n f S) = (map_of S)(n \<mapsto> (get_reads S n)\<lparr>R1 := Some f\<rparr>)"
  by (simp add: set_R1_def update_conv')

lemma map_of_set_R2: "map_of (set_R2 n f S) = (map_of S)(n \<mapsto> (get_reads S n)\<lparr>R2 := Some f\<rparr>)"
  by (simp add: set_R2_def update_conv')

lemma slot_set_R1: "slot (set_R1 n f S) k = (if k = (n, Mate1) then Some f else slot S k)"
proof -
  obtain m t where k: "k = (m, t)" by (cases k) auto
  show ?thesis unfolding k
    by (cases t) (auto simp: map_of_set_R1 get_reads_def split: option.splits)
qed

lemma slot_set_R2: "slot (set_R2 n f S) k = (if k = (n, Mate2) then Some f else slot S k)"
proof -
  obtain m t where k: "k = (m, t)" by (cases k) auto
  show ?thesis unfolding k
    by (cases t) (auto simp: map_of_set_R2 get_reads_def split: option.splits)
qed

lemma slot_bind:
  "slot (bind S (n, f, g)) k =
     (if k = (n, Mate2) then Some g else if k = (n, Mate1) then Some f else slot S k)"
  by (simp add: bind_def slot_set_R1 slot_set_R2)

lemma well_formed_update:
  assumes "well_formed S" "R1 r \<noteq> None"
  shows "well_formed (AList.update n r S)"
proof -
  have "set (AList.update n r S) \<subseteq> insert (n, r) (set S)"
    by (induction S) auto
  with assms show ?thesis unfolding well_formed_def
    by (auto simp: distinct_update)
qed

lemma well_formed_R1: "well_formed S \<Longrightarrow> map_of S n = Some r \<Longrightarrow> R1 r \<noteq> None"
  unfolding well_formed_def by (auto dest!: map_of_SomeD)

lemma well_formed_set_R1: "well_formed S \<Longrightarrow> well_formed (set_R1 n f S)"
  unfolding set_R1_def by (rule well_formed_update) simp_all

lemma well_formed_bind:
  assumes wf: "well_formed S" shows "well_formed (bind S b)"
proof -
  obtain n f g where b: "b = (n, f, g)" by (cases b) auto
  let ?S1 = "set_R1 n f S"
  have wf1: "well_formed ?S1" by (rule well_formed_set_R1[OF wf])
  have "R1 (get_reads ?S1 n) \<noteq> None"
    by (simp add: get_reads_def map_of_set_R1)
  then have "well_formed (set_R2 n g ?S1)"
    unfolding set_R2_def by (intro well_formed_update wf1) simp
  then show ?thesis by (simp add: b bind_def)
qed

lemma well_formed_foldl_bind: "well_formed S \<Longrightarrow> well_formed (foldl bind S bs)"
  by (induction bs arbitrary: S) (auto simp: well_formed_bind)

subsection \<open>The loop of a rule makes its bindings in order\<close>

lemma pair_loop_eq:
  "pair_loop r W fs (S, M) = (foldl bind S (bindings r W fs), M \<union> bound_files (bindings r W fs))"
proof (induction fs arbitrary: S M)
  case Nil
  show ?case by (cases r) (simp add: bound_files_def)
next
  case (Cons f fs)
  obtain p q where r: "r = (p, q)" by (cases r) auto
  show ?case unfolding r
    by (auto simp: Cons[unfolded r] bound_files_def bind_def split: option.splits)
qed

subsection \<open>The bindings of a rule\<close>

lemma find_mate2_SomeD:
  "find_mate2 q s W = Some g \<Longrightarrow> g \<in> set W \<and> re_match q (basename g) = Some s"
  unfolding find_mate2_def by (auto simp: find_Some_iff)

lemma find_mate2_None_iff:
  "find_mate2 q s W = None \<longleftrightarrow> (\<forall>g\<in>set W. re_match q (basename g) \<noteq> Some s)"
  unfolding find_mate2_def by (auto simp: find_None_iff)

lemma bindings_iff:
  "(s, f, g) \<in> set (bindings r W fs) \<longleftrightarrow>
     f \<in> set fs \<and> re_match (fst r) (basename f) = Some s \<and> find_mate2 (snd r) s W = Some g"
proof -
  obtain p q where r: "r = (p, q)" by (cases r) auto
  show ?thesis unfolding r
    by (induction fs) (auto split: option.splits)
qed

lemma find_SomeD: "find P xs = Some x \<Longrightarrow> x \<in> set xs \<and> P x"
  by (induction xs) (auto split: if_splits)

lemma find_append:
  "find P (xs @ ys) = (case find P xs of Some x \<Rightarrow> Some x | None \<Rightarrow> find P ys)"
  by (induction xs) auto

lemma find_not_None: "x \<in> set xs \<Longrightarrow> P x \<Longrightarrow> find P xs \<noteq> None"
  by (auto simp: find_None_iff)

lemma length_filter_le_1:
  assumes "distinct xs" "\<And>x y. x \<in> set xs \<Longrightarrow> y \<in> set xs \<Longrightarrow> P x \<Longrightarrow> P y \<Longrightarrow> x = y"
  shows "length (filter P xs) \<le> 1"
  using assms
proof (induction xs)
  case Nil
  show ?case by simp
next
  case (Cons x xs)
  show ?case
  proof (cases "P x")
    case True
    have "filter P xs = []"
    proof (rule ccontr)
      assume "filter P xs \<noteq> []"
      then obtain y where "y \<in> set xs" "P y" by (metis filter_False)
      with Cons.prems(2)[of x y] True have "x = y" by simp
      with \<open>y \<in> set xs\<close> Cons.prems(1) show False by simp
    qed
    with True show ?thesis by simp
  next
    case False
    with Cons show ?thesis by simp
  qed
qed

lemma bound_files_hits:
  assumes "f \<in> bound_files (bindings r W fs)"
  shows "f \<in> set fs \<union> set W \<and> hits r f"
proof -
  from assms obtain s f1 g where b: "(s, f1, g) \<in> set (bindings r W fs)" and f: "f = f1 \<or> f = g"
    unfolding bound_files_def by auto
  from b have 1: "f1 \<in> set fs" "re_match (fst r) (basename f1) = Some s"
    and 2: "find_mate2 (snd r) s W = Some g" by (simp_all add: bindings_iff)
  from find_mate2_SomeD[OF 2] have 3: "g \<in> set W" "re_match (snd r) (basename g) = Some s" by simp_all
  from f 1 3 show ?thesis unfolding hits_def by auto
qed

lemma paired_is_bound:
  assumes "f1 \<in> set W" "f2 \<in> set W" "re_match (fst r) (basename f1) = Some s"
    "re_match (snd r) (basename f2) = Some s"
  shows "f1 \<in> bound_files (bindings r W W)"
proof -
  from assms(2,4) have "find_mate2 (snd r) s W \<noteq> None" by (auto simp: find_mate2_None_iff)
  then obtain g where "find_mate2 (snd r) s W = Some g" by auto
  with assms(1,3) have "(s, f1, g) \<in> set (bindings r W W)" by (simp add: bindings_iff)
  then show ?thesis by (auto simp: bound_files_def)
qed

lemma length_stem_bindings:
  "length (stem_bindings s (bindings r W fs)) =
     length (filter (\<lambda>f. re_match (fst r) (basename f) = Some s \<and>
                          (\<exists>g\<in>set W. re_match (snd r) (basename g) = Some s)) fs)"
proof -
  obtain p q where r: "r = (p, q)" by (cases r) auto
  have nn: "find_mate2 q t W = None \<longleftrightarrow> \<not> (\<exists>g\<in>set W. re_match q (basename g) = Some t)" for t
    by (simp add: find_mate2_None_iff)
  show ?thesis unfolding r stem_bindings_def
  proof (induction fs)
    case Nil
    show ?case by simp
  next
    case (Cons f fs)
    show ?case
    proof (cases "re_match p (basename f)")
      case None
      with Cons show ?thesis by simp
    next
      case (Some t)
      show ?thesis
      proof (cases "find_mate2 q t W")
        case None
        with Some Cons nn[of t] show ?thesis by auto
      next
        case (Some g)
        with \<open>re_match p (basename f) = Some t\<close> Cons nn[of t] show ?thesis by auto
      qed
    qed
  qed
qed

subsection \<open>The rules do not interfere\<close>

lemma exclusive_paired_patterns: "exclusive paired_patterns"
  unfolding exclusive_def
proof (intro conjI ballI impI)
  show "distinct (patterns paired_patterns)"
    by (simp add: patterns_def paired_patterns_def)
next
  fix p q assume "p \<in> set (patterns paired_patterns)" "q \<in> set (patterns paired_patterns)" "clash p q"
  moreover have "set (patterns paired_patterns) = fst ` set paired_patterns \<union> snd ` set paired_patterns"
    by (simp add: patterns_def)
  ultimately show "p = q" using clash_paired[of p q] by blast
qed

lemma patterns_Cons_subset: "set (patterns rs) \<subseteq> set (patterns (r # rs))"
  by (auto simp: patterns_def)

lemma distinct_patterns_Cons: "distinct (patterns (r # rs)) \<Longrightarrow> distinct (patterns rs)"
  by (simp add: patterns_def)

lemma exclusive_Cons: "exclusive (r # rs) \<Longrightarrow> exclusive rs"
  unfolding exclusive_def using patterns_Cons_subset[of rs r] distinct_patterns_Cons[of r rs]
  by blast

lemma exclusive_match:
  assumes "exclusive rs" "p \<in> set (patterns rs)" "q \<in> set (patterns rs)"
    "re_match p b = Some s" "re_match q b = Some t"
  shows "p = q \<and> s = t"
proof -
  have "clash p q" using assms(4,5) by (rule re_match_clash)
  with assms(1-3) have "p = q" unfolding exclusive_def by blast
  with assms(4,5) show ?thesis by simp
qed

lemma exclusive_hits:
  assumes "exclusive (r # rs)" "r' \<in> set rs" "hits r' f"
  shows "\<not> hits r f"
proof
  assume h: "hits r f"
  from assms(1) have d: "distinct (patterns (r # rs))" by (simp add: exclusive_def)
  from assms(2) d have ne: "fst r \<noteq> fst r'" "fst r \<noteq> snd r'" "snd r \<noteq> fst r'" "snd r \<noteq> snd r'"
    unfolding patterns_def by auto
  have mem: "fst r \<in> set (patterns (r # rs))" "snd r \<in> set (patterns (r # rs))"
    "fst r' \<in> set (patterns (r # rs))" "snd r' \<in> set (patterns (r # rs))"
    using assms(2) unfolding patterns_def by auto
  from h assms(3) obtain p q s t where
    "p \<in> {fst r, snd r}" "q \<in> {fst r', snd r'}"
    "re_match p (basename f) = Some s" "re_match q (basename f) = Some t"
    unfolding hits_def by auto
  moreover from this mem have "p \<in> set (patterns (r # rs))" "q \<in> set (patterns (r # rs))"
    by blast+
  ultimately have "p = q" using exclusive_match[OF assms(1), of p q "basename f" s t] by blast
  with \<open>p \<in> {fst r, snd r}\<close> \<open>q \<in> {fst r', snd r'}\<close> ne show False by blast
qed

lemma exclusive_fst_snd:
  assumes "exclusive rs" "r \<in> set rs" "re_match (fst r) b = Some s"
  shows "re_match (snd r) b = None"
proof (rule ccontr)
  assume "re_match (snd r) b \<noteq> None"
  then obtain t where t: "re_match (snd r) b = Some t" by auto
  have mem: "fst r \<in> set (patterns rs)" "snd r \<in> set (patterns rs)"
    using assms(2) by (auto simp: patterns_def)
  from exclusive_match[OF assms(1) mem assms(3) t] have "fst r = snd r" by simp
  moreover from assms(1) have "distinct (map fst rs @ map snd rs)"
    by (simp add: exclusive_def patterns_def)
  ultimately show False using assms(2) by auto
qed

lemma exclusive_fst_ne_snd:
  assumes "exclusive rs" "r \<in> set rs" "r' \<in> set rs" shows "fst r \<noteq> snd r'"
proof -
  from assms(1) have "distinct (map fst rs @ map snd rs)"
    by (simp add: exclusive_def patterns_def)
  then have "set (map fst rs) \<inter> set (map snd rs) = {}" by simp
  moreover have "fst r \<in> set (map fst rs)" "snd r' \<in> set (map snd rs)"
    using assms(2,3) by simp_all
  ultimately show ?thesis by (metis disjoint_iff)
qed

lemma exclusive_hits_ne:
  assumes ex: "exclusive rs" and r: "r \<in> set rs" "r' \<in> set rs" "r \<noteq> r'" and h: "hits r f"
  shows "\<not> hits r' f"
proof
  assume h': "hits r' f"
  have pat: "fst x \<in> set (patterns rs)" "snd x \<in> set (patterns rs)" if "x \<in> set rs" for x
    using that by (auto simp: patterns_def)
  from ex have d: "distinct (map fst rs)" "distinct (map snd rs)"
    by (simp_all add: exclusive_def patterns_def)
  from h h' obtain p q s t where pq: "p = fst r \<or> p = snd r" "q = fst r' \<or> q = snd r'"
    and m: "re_match p (basename f) = Some s" "re_match q (basename f) = Some t"
    unfolding hits_def by auto
  from pq pat[OF r(1)] pat[OF r(2)] have "p \<in> set (patterns rs)" "q \<in> set (patterns rs)" by auto
  from exclusive_match[OF ex this m] have "p = q" by simp
  with pq consider "fst r = fst r'" | "snd r = snd r'" | "fst r = snd r'" | "fst r' = snd r"
    by metis
  then show False
  proof cases
    case 1
    with d(1) r show False by (metis distinct_map inj_onD)
  next
    case 2
    with d(2) r show False by (metis distinct_map inj_onD)
  next
    case 3
    with exclusive_fst_ne_snd[OF ex r(1,2)] show False by simp
  next
    case 4
    with exclusive_fst_ne_snd[OF ex r(2,1)] show False by simp
  qed
qed

lemma distinct_paired_patterns: "distinct paired_patterns"
  by (simp add: paired_patterns_def)

lemma hits_None: "\<not> hits r f \<Longrightarrow> re_match (fst r) (basename f) = None \<and> re_match (snd r) (basename f) = None"
  by (simp add: hits_def)

subsection \<open>The files of a list of bindings\<close>

lemma bound_files_append: "bound_files (xs @ ys) = bound_files xs \<union> bound_files ys"
  by (auto simp: bound_files_def)

subsection \<open>Reading the slots of the result\<close>

lemma slot_Nil [simp]: "slot [] k = None"
  by (cases k; cases "snd k") auto

declare slot.simps [simp del]

lemma slot_Cons:
  "slot ((m, r) # S) (n, t) =
     (if n = m then (case t of Mate1 \<Rightarrow> R1 r | Mate2 \<Rightarrow> R2 r) else slot S (n, t))"
  by (cases t) (simp_all add: slot.simps)

lemma slot_None_notin: "n \<notin> fst ` set S \<Longrightarrow> slot S (n, t) = None"
  by (cases t) (simp_all add: slot.simps map_of_eq_None_iff[THEN iffD2])

lemma slot_files_iff:
  "distinct (map fst S) \<Longrightarrow> f \<in> set (slot_files S) \<longleftrightarrow> (\<exists>k. slot S k = Some f)"
proof (induction S)
  case Nil
  show ?case by simp
next
  case (Cons p S)
  obtain m r where p: "p = (m, r)" by (cases p) auto
  from Cons.prems have m: "m \<notin> fst ` set S" and d: "distinct (map fst S)" by (simp_all add: p)
  have IH: "f \<in> set (slot_files S) \<longleftrightarrow> (\<exists>k. slot S k = Some f)" by (rule Cons.IH[OF d])
  have "(\<exists>k. slot (p # S) k = Some f) \<longleftrightarrow> R1 r = Some f \<or> R2 r = Some f \<or> (\<exists>k. slot S k = Some f)"
  proof
    assume "\<exists>k. slot (p # S) k = Some f"
    then obtain n t where "slot ((m, r) # S) (n, t) = Some f" unfolding p by auto
    then show "R1 r = Some f \<or> R2 r = Some f \<or> (\<exists>k. slot S k = Some f)"
      by (cases t) (auto simp: slot_Cons split: if_splits)
  next
    assume "R1 r = Some f \<or> R2 r = Some f \<or> (\<exists>k. slot S k = Some f)"
    then consider "R1 r = Some f" | "R2 r = Some f" | n t where "slot S (n, t) = Some f" by auto
    then show "\<exists>k. slot (p # S) k = Some f"
    proof cases
      case 1
      then have "slot (p # S) (m, Mate1) = Some f" by (simp add: p slot_Cons)
      then show ?thesis by blast
    next
      case 2
      then have "slot (p # S) (m, Mate2) = Some f" by (simp add: p slot_Cons)
      then show ?thesis by blast
    next
      case 3
      with slot_None_notin[OF m, of t] have "n \<noteq> m" by auto
      with 3 have "slot (p # S) (n, t) = Some f" by (simp add: p slot_Cons)
      then show ?thesis by blast
    qed
  qed
  with IH show ?case by (auto simp: p split: option.splits)
qed

lemma distinct_slot_files:
  assumes "distinct (map fst S)"
    and "\<And>k k' f. slot S k = Some f \<Longrightarrow> slot S k' = Some f \<Longrightarrow> k = k'"
  shows "distinct (slot_files S)"
  using assms
proof (induction S)
  case Nil
  show ?case by simp
next
  case (Cons p S)
  obtain m r where p: "p = (m, r)" by (cases p) auto
  from Cons.prems(1) have m: "m \<notin> fst ` set S" and d: "distinct (map fst S)" by (simp_all add: p)
  have up: "slot (p # S) (n, t) = slot S (n, t)" if "slot S (n, t) = Some f" for n t f
  proof -
    from that slot_None_notin[OF m, of t] have "n \<noteq> m" by auto
    then show ?thesis by (simp add: p slot_Cons)
  qed
  have uniq: "k = k'" if "slot S k = Some f" "slot S k' = Some f" for k k' f
  proof -
    obtain n t where k: "k = (n, t)" by (cases k) auto
    obtain n' t' where k': "k' = (n', t')" by (cases k') auto
    from that up[of n t f] up[of n' t' f] have "slot (p # S) k = Some f" "slot (p # S) k' = Some f"
      by (simp_all add: k k')
    then show ?thesis by (rule Cons.prems(2))
  qed
  have IH: "distinct (slot_files S)" by (rule Cons.IH[OF d uniq])
  have notin: "f \<notin> set (slot_files S)" if "slot (p # S) (m, t) = Some f" for t f
  proof
    assume "f \<in> set (slot_files S)"
    then obtain n' t' where s: "slot S (n', t') = Some f" using slot_files_iff[OF d] by auto
    from up[OF s] s have "slot (p # S) (n', t') = Some f" by simp
    from Cons.prems(2)[OF that this] have "n' = m" by simp
    with s slot_None_notin[OF m, of t'] show False by simp
  qed
  have r1: "f \<notin> set (slot_files S)" if "R1 r = Some f" for f
    by (rule notin[of Mate1]) (simp add: p slot_Cons that)
  have r2: "f \<notin> set (slot_files S)" if "R2 r = Some f" for f
    by (rule notin[of Mate2]) (simp add: p slot_Cons that)
  have r12: "R1 r \<noteq> R2 r" if "R1 r = Some f" for f
  proof
    assume "R1 r = R2 r"
    with that have "slot (p # S) (m, Mate1) = Some f" "slot (p # S) (m, Mate2) = Some f"
      by (simp_all add: p slot_Cons)
    from Cons.prems(2)[OF this] show False by simp
  qed
  show ?case using IH r1 r2 r12 by (auto simp: p split: option.splits)
qed

lemma map_of_eq_slots:
  assumes "well_formed S" "well_formed S'" "\<And>k. slot S k = slot S' k"
  shows "map_of S = map_of S'"
proof
  fix n
  from assms(3)[of "(n, Mate1)"] assms(3)[of "(n, Mate2)"]
  have e: "(case map_of S n of None \<Rightarrow> None | Some r \<Rightarrow> R1 r) = (case map_of S' n of None \<Rightarrow> None | Some r \<Rightarrow> R1 r)"
    "(case map_of S n of None \<Rightarrow> None | Some r \<Rightarrow> R2 r) = (case map_of S' n of None \<Rightarrow> None | Some r \<Rightarrow> R2 r)"
    by (simp_all add: slot.simps)
  show "map_of S n = map_of S' n"
  proof (cases "map_of S n"; cases "map_of S' n")
    fix r assume a: "map_of S n = Some r" "map_of S' n = None"
    with e well_formed_R1[OF assms(1) a(1)] show ?thesis by simp
  next
    fix r assume a: "map_of S n = None" "map_of S' n = Some r"
    with e well_formed_R1[OF assms(2) a(2)] show ?thesis by simp
  next
    fix r r' assume a: "map_of S n = Some r" "map_of S' n = Some r'"
    with e have "R1 r = R1 r'" "R2 r = R2 r'" by simp_all
    then have "r = r'" by simp
    with a show ?thesis by simp
  qed simp
qed

lemma well_formed_lookup:
  assumes "well_formed S" "(n, r) \<in> set S"
  shows "map_of S n = Some r" "R1 r \<noteq> None" "slot S (n, Mate2) = R2 r" "slot S (n, Mate1) = R1 r"
proof -
  from assms show m: "map_of S n = Some r" by (simp add: well_formed_def)
  from assms show "R1 r \<noteq> None" by (auto simp: well_formed_def)
  from m show "slot S (n, Mate2) = R2 r" "slot S (n, Mate1) = R1 r" by (simp_all add: slot.simps)
qed

subsection \<open>Where the value of a slot comes from\<close>

lemma slot_foldl_bind:
  "slot (foldl bind S bs) (n, t) =
     (case find (\<lambda>b. fst b = n) (rev bs) of
        None \<Rightarrow> slot S (n, t)
      | Some (s, f, g) \<Rightarrow> Some (case t of Mate1 \<Rightarrow> f | Mate2 \<Rightarrow> g))"
proof (induction bs rule: rev_induct)
  case Nil
  show ?case by simp
next
  case (snoc b bs)
  obtain s f g where b: "b = (s, f, g)" by (cases b) auto
  show ?case using snoc unfolding b
    by (cases t) (simp_all add: slot_bind)
qed

lemma slot_single_end:
  "slot (single_end W S) (n, t) =
     (case t of
        Mate2 \<Rightarrow> slot S (n, t)
      | Mate1 \<Rightarrow> (case find (\<lambda>f. single_name f = n) (rev W) of
                    None \<Rightarrow> slot S (n, t)
                  | Some f \<Rightarrow> Some f))"
proof (induction W arbitrary: S)
  case Nil
  show ?case by (cases t) simp_all
next
  case (Cons f W)
  show ?case using Cons[of "set_R1 (single_name f) f S"]
    by (cases t) (auto simp: slot_set_R1 find_append single_name_def split: option.splits)
qed

lemma well_formed_single_end: "well_formed S \<Longrightarrow> well_formed (single_end W S)"
  by (induction W arbitrary: S) (simp_all add: well_formed_set_R1)

lemma well_formed_Nil: "well_formed []"
  by (simp add: well_formed_def)

lemma binding_facts:
  assumes "(n, f, g) \<in> set (bindings r W W)"
  shows "f \<in> set W" "g \<in> set W" "re_match (fst r) (basename f) = Some n"
    "re_match (snd r) (basename g) = Some n" "find_mate2 (snd r) n W = Some g"
  using assms find_mate2_SomeD[of "snd r" n W g] by (simp_all add: bindings_iff)

subsection \<open>Destinations\<close>

lemma destination_Mate1:
  assumes "exclusive rs" "r \<in> set rs" "re_match (fst r) (basename f) = Some s"
    "\<exists>g\<in>set W. re_match (snd r) (basename g) = Some s"
  shows "destination rs W f = (s, Mate1)"
  using assms
proof (induction rs)
  case Nil
  then show ?case by simp
next
  case (Cons r0 rs)
  show ?case
  proof (cases "r0 = r")
    case True
    with Cons.prems show ?thesis by simp
  next
    case False
    with Cons.prems have r: "r \<in> set rs" by simp
    have "hits r f" using Cons.prems(3) by (simp add: hits_def)
    from exclusive_hits[OF Cons.prems(1) r this] have "\<not> hits r0 f" .
    from hits_None[OF this] have "destination (r0 # rs) W f = destination rs W f" by simp
    with Cons.IH[OF exclusive_Cons[OF Cons.prems(1)] r Cons.prems(3,4)] show ?thesis by simp
  qed
qed

lemma destination_Mate2:
  assumes "exclusive rs" "r \<in> set rs" "re_match (snd r) (basename f) = Some s"
    "\<exists>g\<in>set W. re_match (fst r) (basename g) = Some s"
  shows "destination rs W f = (s, Mate2)"
  using assms
proof (induction rs)
  case Nil
  then show ?case by simp
next
  case (Cons r0 rs)
  show ?case
  proof (cases "r0 = r")
    case True
    have "re_match (fst r) (basename f) = None"
    proof (rule ccontr)
      assume "re_match (fst r) (basename f) \<noteq> None"
      then obtain t where "re_match (fst r) (basename f) = Some t" by auto
      from exclusive_fst_snd[OF Cons.prems(1,2) this] Cons.prems(3) show False by simp
    qed
    with True Cons.prems show ?thesis by simp
  next
    case False
    with Cons.prems have r: "r \<in> set rs" by simp
    have "hits r f" using Cons.prems(3) by (simp add: hits_def)
    from exclusive_hits[OF Cons.prems(1) r this] have "\<not> hits r0 f" .
    from hits_None[OF this] have "destination (r0 # rs) W f = destination rs W f" by simp
    with Cons.IH[OF exclusive_Cons[OF Cons.prems(1)] r Cons.prems(3,4)] show ?thesis by simp
  qed
qed

lemma destination_unpaired:
  assumes "\<forall>r\<in>set rs. \<not> paired r W f"
  shows "destination rs W f = (single_name f, Mate1)"
  using assms
proof (induction rs)
  case Nil
  show ?case by simp
next
  case (Cons r rs)
  then have "\<not> paired r W f" and IH: "destination rs W f = (single_name f, Mate1)" by simp_all
  then show ?case unfolding paired_def by (auto split: option.splits)
qed

lemma destination_cong_set: "set W = set W' \<Longrightarrow> destination rs W f = destination rs W' f"
  by (induction rs) (simp_all split: option.splits)

subsection \<open>A run in terms of its bindings\<close>

lemma rule_pass_eq:
  "rule_pass rank (k, S, W) r =
     (Suc k, foldl bind S (bindings r W W),
      sort_key (rank (Suc k)) (filter (\<lambda>f. f \<notin> bound_files (bindings r W W)) W))"
  by (simp add: rule_pass_def pair_loop_eq)

lemma run_eq:
  "foldl (rule_pass rank) (k, S, W) rs =
     (k + length rs, foldl bind S (all_bindings rank k rs W), unbound rank k rs W)"
  by (induction rs arbitrary: k S W) (simp_all add: rule_pass_eq)

lemma bound_files_Nil [simp]: "bound_files [] = {}"
  by (simp add: bound_files_def)

lemma bound_files_iff:
  "f \<in> bound_files bs \<longleftrightarrow> (\<exists>n g. (n, f, g) \<in> set bs) \<or> (\<exists>n g. (n, g, f) \<in> set bs)"
  by (auto simp: bound_files_def)

lemma set_unbound:
  "set (unbound rank k rs W) = set W - bound_files (all_bindings rank k rs W)"
  by (induction rs arbitrary: k W) (auto simp: bound_files_append)

lemma all_bindings_sound:
  assumes "(n, f, g) \<in> set (all_bindings rank k rs W)"
  shows "\<exists>r\<in>set rs. f \<in> set W \<and> g \<in> set W \<and>
           re_match (fst r) (basename f) = Some n \<and> re_match (snd r) (basename g) = Some n"
  using assms
proof (induction rs arbitrary: k W)
  case Nil
  then show ?case by simp
next
  case (Cons r rs)
  let ?W' = "sort_key (rank (Suc k)) (filter (\<lambda>f. f \<notin> bound_files (bindings r W W)) W)"
  from Cons.prems consider "(n, f, g) \<in> set (bindings r W W)"
    | "(n, f, g) \<in> set (all_bindings rank (Suc k) rs ?W')" by auto
  then show ?case
  proof cases
    case 1
    from binding_facts[OF 1] show ?thesis by auto
  next
    case 2
    from Cons.IH[OF 2] show ?thesis by auto
  qed
qed

lemma all_bindings_complete:
  assumes "exclusive rs" "r \<in> set rs" "f \<in> set W" "g \<in> set W"
    "re_match (fst r) (basename f) = Some n" "re_match (snd r) (basename g) = Some n"
  shows "\<exists>g'. (n, f, g') \<in> set (all_bindings rank k rs W)"
  using assms(1-4)
proof (induction rs arbitrary: k W)
  case Nil
  then show ?case by simp
next
  case (Cons r0 rs)
  let ?W' = "sort_key (rank (Suc k)) (filter (\<lambda>f. f \<notin> bound_files (bindings r0 W W)) W)"
  show ?case
  proof (cases "r0 = r")
    case True
    from Cons.prems(4) assms(6) have "find_mate2 (snd r) n W \<noteq> None"
      by (auto simp: find_mate2_None_iff)
    then obtain g' where "find_mate2 (snd r) n W = Some g'" by auto
    with Cons.prems(3) assms(5) have "(n, f, g') \<in> set (bindings r W W)"
      by (simp add: bindings_iff)
    with True show ?thesis by auto
  next
    case False
    with Cons.prems(2) have r: "r \<in> set rs" by simp
    have hf: "hits r f" and hg: "hits r g" using assms(5,6) by (simp_all add: hits_def)
    have "\<not> hits r0 f" "\<not> hits r0 g"
      using exclusive_hits[OF Cons.prems(1) r hf] exclusive_hits[OF Cons.prems(1) r hg] .
    with bound_files_hits[of f r0 W W] bound_files_hits[of g r0 W W] Cons.prems(3,4)
    have "f \<in> set ?W'" "g \<in> set ?W'" by auto
    from Cons.IH[OF exclusive_Cons[OF Cons.prems(1)] r this, of "Suc k"] show ?thesis by auto
  qed
qed

lemma resolution_run:
  assumes "exclusive rs" "set W = set fs"
  shows "resolution rs fs (all_bindings rank k rs W) (unbound rank k rs W)"
  unfolding resolution_def
proof (intro conjI allI ballI impI)
  fix n f g assume "(n, f, g) \<in> set (all_bindings rank k rs W)"
  from all_bindings_sound[OF this] assms(2)
  show "\<exists>r\<in>set rs. f \<in> set fs \<and> g \<in> set fs \<and>
           re_match (fst r) (basename f) = Some n \<and> re_match (snd r) (basename g) = Some n"
    by simp
next
  fix r f g n
  assume "r \<in> set rs" "f \<in> set fs" "g \<in> set fs"
    "re_match (fst r) (basename f) = Some n \<and> re_match (snd r) (basename g) = Some n"
  with assms show "\<exists>g'. (n, f, g') \<in> set (all_bindings rank k rs W)"
    by (intro all_bindings_complete[of rs r f W g]) simp_all
next
  show "set (unbound rank k rs W) = set fs - bound_files (all_bindings rank k rs W)"
    by (simp add: set_unbound assms(2))
qed

lemma parse_fastq_pairs_eq:
  "parse_fastq_pairs rank fs =
     outcome (all_bindings rank 0 paired_patterns (sort_key (rank 0) (remdups fs)))
       (unbound rank 0 paired_patterns (sort_key (rank 0) (remdups fs)))"
  by (simp add: parse_fastq_pairs_def outcome_def run_eq)

lemma parse_fastq_pairs_resolution:
  obtains bs rest where "parse_fastq_pairs rank fs = outcome bs rest"
    "resolution paired_patterns fs bs rest"
proof -
  have "resolution paired_patterns fs
     (all_bindings rank 0 paired_patterns (sort_key (rank 0) (remdups fs)))
     (unbound rank 0 paired_patterns (sort_key (rank 0) (remdups fs)))"
    by (rule resolution_run[OF exclusive_paired_patterns]) simp
  with parse_fastq_pairs_eq[of rank fs] that show thesis by blast
qed

lemma resolution_binding:
  assumes "resolution rs fs bs rest" "(n, f, g) \<in> set bs"
  shows "\<exists>r\<in>set rs. f \<in> set fs \<and> g \<in> set fs \<and>
           re_match (fst r) (basename f) = Some n \<and> re_match (snd r) (basename g) = Some n"
  using assms unfolding resolution_def by blast

lemma resolution_paired:
  assumes "resolution rs fs bs rest" "r \<in> set rs" "f \<in> set fs" "g \<in> set fs"
    "re_match (fst r) (basename f) = Some n" "re_match (snd r) (basename g) = Some n"
  shows "\<exists>g'. (n, f, g') \<in> set bs"
  using assms unfolding resolution_def by blast

lemma resolution_rest:
  assumes "resolution rs fs bs rest"
  shows "set rest = set fs - bound_files bs"
  using assms unfolding resolution_def by blast

lemma resolution_cong_set:
  "set fs = set fs' \<Longrightarrow> resolution rs fs bs rest \<Longrightarrow> resolution rs fs' bs rest"
  unfolding resolution_def by simp

subsection \<open>Where the value of a slot comes from\<close>

lemma well_formed_outcome: "well_formed (outcome bs rest)"
  unfolding outcome_def
  by (intro well_formed_single_end well_formed_foldl_bind well_formed_Nil)

lemma slot_outcome_Mate2:
  assumes "slot (outcome bs rest) (n, Mate2) = Some g"
  shows "\<exists>f. (n, f, g) \<in> set bs"
proof -
  from assms obtain b where "find (\<lambda>b. fst b = n) (rev bs) = Some b"
    and g: "g = snd (snd b)"
    by (auto simp: outcome_def slot_single_end slot_foldl_bind split: option.splits)
  from find_SomeD[OF this(1)] have "b \<in> set bs" "fst b = n" by simp_all
  with g have "(n, fst (snd b), g) \<in> set bs" by (cases b) auto
  then show ?thesis by blast
qed

lemma slot_outcome_Mate1:
  assumes "slot (outcome bs rest) (n, Mate1) = Some f"
  shows "(f \<in> set rest \<and> single_name f = n) \<or> (\<exists>g. (n, f, g) \<in> set bs)"
proof (cases "find (\<lambda>f. single_name f = n) (rev rest)")
  case (Some f')
  with assms have "f' = f" by (simp add: outcome_def slot_single_end)
  with find_SomeD[OF Some] show ?thesis by simp
next
  case None
  with assms obtain b where "find (\<lambda>b. fst b = n) (rev bs) = Some b"
    and f: "f = fst (snd b)"
    by (auto simp: outcome_def slot_single_end slot_foldl_bind split: option.splits)
  from find_SomeD[OF this(1)] have "b \<in> set bs" "fst b = n" by simp_all
  with f have "(n, f, snd (snd b)) \<in> set bs" by (cases b) auto
  then show ?thesis by blast
qed

lemma slot_outcome_binding:
  assumes "(n, f, g) \<in> set bs"
  shows "slot (outcome bs rest) (n, Mate2) \<noteq> None" "slot (outcome bs rest) (n, Mate1) \<noteq> None"
proof -
  have "find (\<lambda>b. fst b = n) (rev bs) \<noteq> None"
    by (rule find_not_None[of "(n, f, g)"]) (use assms in simp_all)
  then show "slot (outcome bs rest) (n, Mate2) \<noteq> None" "slot (outcome bs rest) (n, Mate1) \<noteq> None"
    by (auto simp: outcome_def slot_single_end slot_foldl_bind split: option.splits)
qed

lemma slot_outcome_unbound:
  assumes "f \<in> set rest"
  shows "\<exists>f'\<in>set rest. single_name f' = single_name f \<and>
           slot (outcome bs rest) (single_name f, Mate1) = Some f'"
proof -
  have "find (\<lambda>f'. single_name f' = single_name f) (rev rest) \<noteq> None"
    by (rule find_not_None[of f]) (use assms in simp_all)
  then obtain f' where f': "find (\<lambda>f'. single_name f' = single_name f) (rev rest) = Some f'"
    by auto
  from find_SomeD[OF f'] have "f' \<in> set rest" "single_name f' = single_name f" by simp_all
  moreover have "slot (outcome bs rest) (single_name f, Mate1) = Some f'"
    by (simp add: outcome_def slot_single_end f')
  ultimately show ?thesis by blast
qed

lemma slot_outcome_sound:
  assumes res: "resolution rs fs bs rest" and s: "slot (outcome bs rest) k = Some f"
  shows "f \<in> set fs"
proof -
  obtain n t where k: "k = (n, t)" by (cases k) auto
  show ?thesis
  proof (cases t)
    case Mate1
    with s k slot_outcome_Mate1[of bs rest n f] resolution_rest[OF res]
      resolution_binding[OF res] show ?thesis by blast
  next
    case Mate2
    with s k slot_outcome_Mate2[of bs rest n f] resolution_binding[OF res] show ?thesis
      by blast
  qed
qed

subsection \<open>Destinations of the files of a resolution\<close>

lemma binding_destination:
  assumes ex: "exclusive rs" and res: "resolution rs fs bs rest" and b: "(n, f, g) \<in> set bs"
  shows "destination rs fs f = (n, Mate1)" "destination rs fs g = (n, Mate2)"
proof -
  from resolution_binding[OF res b] obtain r where r: "r \<in> set rs" and
    m: "f \<in> set fs" "g \<in> set fs" "re_match (fst r) (basename f) = Some n"
      "re_match (snd r) (basename g) = Some n" by blast
  show "destination rs fs f = (n, Mate1)"
    by (rule destination_Mate1[OF ex r m(3)]) (use m in blast)
  show "destination rs fs g = (n, Mate2)"
    by (rule destination_Mate2[OF ex r m(4)]) (use m in blast)
qed

lemma binding_bound:
  assumes "(n, f, g) \<in> set bs"
  shows "f \<in> bound_files bs" "g \<in> bound_files bs"
  using assms by (auto simp: bound_files_iff)

lemma unbound_destination:
  assumes ex: "exclusive rs" and res: "resolution rs fs bs rest"
    and inj: "inj_on (destination rs fs) (set fs)" and f: "f \<in> set rest"
  shows "destination rs fs f = (single_name f, Mate1)"
proof (rule destination_unpaired, rule ballI, rule notI)
  fix r assume r: "r \<in> set rs" and p: "paired r fs f"
  from f resolution_rest[OF res] have fW: "f \<in> set fs" and nb: "f \<notin> bound_files bs"
    by simp_all
  from p consider
    (m1) s where "re_match (fst r) (basename f) = Some s" "\<exists>g\<in>set fs. re_match (snd r) (basename g) = Some s"
  | (m2) s where "re_match (snd r) (basename f) = Some s" "\<exists>g\<in>set fs. re_match (fst r) (basename g) = Some s"
    unfolding paired_def by blast
  then show False
  proof cases
    case m1
    from m1(2) obtain g where "g \<in> set fs" "re_match (snd r) (basename g) = Some s" by blast
    from resolution_paired[OF res r fW this(1) m1(1) this(2)] obtain g' where
      "(s, f, g') \<in> set bs" by blast
    from binding_bound(1)[OF this] nb show False by simp
  next
    case m2
    from m2(2) obtain f1 where f1: "f1 \<in> set fs" "re_match (fst r) (basename f1) = Some s" by blast
    from resolution_paired[OF res r f1(1) fW f1(2) m2(1)] obtain g where
      b: "(s, f1, g) \<in> set bs" by blast
    have "destination rs fs g = (s, Mate2)" by (rule binding_destination(2)[OF ex res b])
    moreover have "destination rs fs f = (s, Mate2)"
      by (rule destination_Mate2[OF ex r m2(1) m2(2)])
    moreover from resolution_binding[OF res b] have "g \<in> set fs" by blast
    ultimately have "g = f" using inj fW by (simp add: inj_on_def)
    with binding_bound(2)[OF b] nb show False by simp
  qed
qed

lemma slot_outcome_destination:
  assumes ex: "exclusive rs" and res: "resolution rs fs bs rest"
    and inj: "inj_on (destination rs fs) (set fs)"
    and s: "slot (outcome bs rest) k = Some f"
  shows "destination rs fs f = k"
proof -
  obtain n t where k: "k = (n, t)" by (cases k) auto
  show ?thesis
  proof (cases t)
    case Mate1
    with s k slot_outcome_Mate1[of bs rest n f] show ?thesis
      by (auto simp: unbound_destination[OF ex res inj] binding_destination(1)[OF ex res])
  next
    case Mate2
    with s k slot_outcome_Mate2[of bs rest n f] show ?thesis
      by (auto simp: binding_destination(2)[OF ex res])
  qed
qed

lemma destination_populated:
  assumes ex: "exclusive rs" and res: "resolution rs fs bs rest"
    and inj: "inj_on (destination rs fs) (set fs)" and f: "f \<in> set fs"
  shows "slot (outcome bs rest) (destination rs fs f) \<noteq> None"
proof (cases "f \<in> bound_files bs")
  case False
  with f resolution_rest[OF res] have u: "f \<in> set rest" by simp
  from slot_outcome_unbound[OF u, of bs] unbound_destination[OF ex res inj u] show ?thesis by auto
next
  case True
  then consider n g where "(n, f, g) \<in> set bs" | n g where "(n, g, f) \<in> set bs"
    by (auto simp: bound_files_iff)
  then show ?thesis
  proof cases
    case 1
    from binding_destination(1)[OF ex res 1] slot_outcome_binding(2)[OF 1] show ?thesis by simp
  next
    case 2
    from binding_destination(2)[OF ex res 2] slot_outcome_binding(1)[OF 2] show ?thesis by simp
  qed
qed

lemma outcome_complete:
  assumes ex: "exclusive rs" and res: "resolution rs fs bs rest"
    and inj: "inj_on (destination rs fs) (set fs)" and f: "f \<in> set fs"
  shows "slot (outcome bs rest) (destination rs fs f) = Some f"
proof -
  from destination_populated[OF ex res inj f] obtain f' where
    s: "slot (outcome bs rest) (destination rs fs f) = Some f'" by auto
  from slot_outcome_destination[OF ex res inj s] have "destination rs fs f' = destination rs fs f" .
  moreover from slot_outcome_sound[OF res s] have "f' \<in> set fs" .
  ultimately have "f' = f" using inj f by (simp add: inj_on_def)
  with s show ?thesis by simp
qed

subsection \<open>No file in two slots\<close>

lemma slot_outcome_origin2:
  assumes res: "resolution rs fs bs rest" and s: "slot (outcome bs rest) (n, Mate2) = Some g"
  shows "\<exists>r\<in>set rs. re_match (snd r) (basename g) = Some n \<and> g \<in> bound_files bs"
proof -
  from slot_outcome_Mate2[OF s] obtain f where b: "(n, f, g) \<in> set bs" by blast
  from resolution_binding[OF res b] binding_bound(2)[OF b] show ?thesis by blast
qed

lemma slot_outcome_origin1:
  assumes res: "resolution rs fs bs rest" and s: "slot (outcome bs rest) (n, Mate1) = Some f"
  shows "(f \<notin> bound_files bs \<and> single_name f = n) \<or>
         (\<exists>r\<in>set rs. re_match (fst r) (basename f) = Some n \<and> f \<in> bound_files bs)"
proof -
  from slot_outcome_Mate1[OF s] consider
    "f \<in> set rest" "single_name f = n"
  | g where "(n, f, g) \<in> set bs" by blast
  then show ?thesis
  proof cases
    case 1
    with resolution_rest[OF res] show ?thesis by simp
  next
    case 2
    from resolution_binding[OF res 2] binding_bound(1)[OF 2] show ?thesis by blast
  qed
qed

lemma slot_outcome_unique:
  assumes ex: "exclusive rs" and res: "resolution rs fs bs rest"
    and 1: "slot (outcome bs rest) k = Some f" and 2: "slot (outcome bs rest) k' = Some f"
  shows "k = k'"
proof -
  obtain n t where k: "k = (n, t)" by (cases k) auto
  obtain n' t' where k': "k' = (n', t')" by (cases k') auto
  have pat: "fst r \<in> set (patterns rs)" "snd r \<in> set (patterns rs)" if "r \<in> set rs" for r
    using that by (auto simp: patterns_def)
  show ?thesis
  proof (cases t; cases t')
    assume t: "t = Mate1" "t' = Mate1"
    from slot_outcome_origin1[OF res 1[unfolded k t]] slot_outcome_origin1[OF res 2[unfolded k' t]]
    consider "single_name f = n" "single_name f = n'"
      | r r' where "r \<in> set rs" "r' \<in> set rs" "re_match (fst r) (basename f) = Some n"
          "re_match (fst r') (basename f) = Some n'"
      by blast
    then have "n = n'"
    proof cases
      case 1 then show ?thesis by simp
    next
      case 2
      from exclusive_match[OF ex pat(1)[OF 2(1)] pat(1)[OF 2(2)] 2(3,4)] show ?thesis by simp
    qed
    with k k' t show ?thesis by simp
  next
    assume t: "t = Mate2" "t' = Mate2"
    from slot_outcome_origin2[OF res 1[unfolded k t]] slot_outcome_origin2[OF res 2[unfolded k' t]]
    obtain r r' where "r \<in> set rs" "r' \<in> set rs" "re_match (snd r) (basename f) = Some n"
          "re_match (snd r') (basename f) = Some n'" by blast
    from exclusive_match[OF ex pat(2)[OF this(1)] pat(2)[OF this(2)] this(3,4)]
    have "n = n'" by simp
    with k k' t show ?thesis by simp
  next
    assume t: "t = Mate1" "t' = Mate2"
    from slot_outcome_origin1[OF res 1[unfolded k t]] slot_outcome_origin2[OF res 2[unfolded k' t]]
    obtain r r' where r: "r \<in> set rs" "r' \<in> set rs" and m: "re_match (fst r) (basename f) = Some n"
          "re_match (snd r') (basename f) = Some n'" by blast
    from exclusive_match[OF ex pat(1)[OF r(1)] pat(2)[OF r(2)] m] exclusive_fst_ne_snd[OF ex r]
    show ?thesis by simp
  next
    assume t: "t = Mate2" "t' = Mate1"
    from slot_outcome_origin2[OF res 1[unfolded k t]] slot_outcome_origin1[OF res 2[unfolded k' t]]
    obtain r r' where r: "r' \<in> set rs" "r \<in> set rs" and m: "re_match (fst r') (basename f) = Some n'"
          "re_match (snd r) (basename f) = Some n" by blast
    from exclusive_match[OF ex pat(1)[OF r(1)] pat(2)[OF r(2)] m] exclusive_fst_ne_snd[OF ex r]
    show ?thesis by simp
  qed
qed

subsection \<open>All the slots at once\<close>

lemma slot_outcome_iff:
  assumes ex: "exclusive rs" and res: "resolution rs fs bs rest"
    and inj: "inj_on (destination rs fs) (set fs)"
  shows "slot (outcome bs rest) k = Some f \<longleftrightarrow> f \<in> set fs \<and> destination rs fs f = k"
  using slot_outcome_sound[OF res, of k f] slot_outcome_destination[OF ex res inj, of k f]
    outcome_complete[OF ex res inj, of f]
  by blast

lemma slot_files_outcome:
  assumes ex: "exclusive rs" and res: "resolution rs fs bs rest"
  shows "set (slot_files (outcome bs rest)) \<subseteq> set fs" "distinct (slot_files (outcome bs rest))"
    "inj_on (destination rs fs) (set fs) \<Longrightarrow> set (slot_files (outcome bs rest)) = set fs"
proof -
  have d: "distinct (map fst (outcome bs rest))"
    using well_formed_outcome[of bs rest] by (simp add: well_formed_def)
  show sub: "set (slot_files (outcome bs rest)) \<subseteq> set fs"
    using slot_outcome_sound[OF res] by (auto simp: slot_files_iff[OF d])
  show "distinct (slot_files (outcome bs rest))"
    by (rule distinct_slot_files[OF d]) (rule slot_outcome_unique[OF ex res])
  assume inj: "inj_on (destination rs fs) (set fs)"
  have "f \<in> set (slot_files (outcome bs rest))" if "f \<in> set fs" for f
    using outcome_complete[OF ex res inj that] slot_files_iff[OF d] by blast
  with sub show "set (slot_files (outcome bs rest)) = set fs" by blast
qed

lemma slot_outcome_Mate2_iff:
  assumes res: "resolution rs fs bs rest"
  shows "slot (outcome bs rest) (n, Mate2) \<noteq> None \<longleftrightarrow>
     (\<exists>r\<in>set rs. \<exists>f1\<in>set fs. \<exists>f2\<in>set fs.
        re_match (fst r) (basename f1) = Some n \<and> re_match (snd r) (basename f2) = Some n)"
proof
  assume "slot (outcome bs rest) (n, Mate2) \<noteq> None"
  then obtain g where "slot (outcome bs rest) (n, Mate2) = Some g" by auto
  from slot_outcome_Mate2[OF this] obtain f where b: "(n, f, g) \<in> set bs" by blast
  from resolution_binding[OF res b] show "\<exists>r\<in>set rs. \<exists>f1\<in>set fs. \<exists>f2\<in>set fs.
        re_match (fst r) (basename f1) = Some n \<and> re_match (snd r) (basename f2) = Some n"
    by blast
next
  assume "\<exists>r\<in>set rs. \<exists>f1\<in>set fs. \<exists>f2\<in>set fs.
        re_match (fst r) (basename f1) = Some n \<and> re_match (snd r) (basename f2) = Some n"
  then obtain r f1 f2 where r: "r \<in> set rs" and f: "f1 \<in> set fs" "f2 \<in> set fs"
    and m: "re_match (fst r) (basename f1) = Some n" "re_match (snd r) (basename f2) = Some n"
    by blast
  from resolution_paired[OF res r f m] obtain g where "(n, f1, g) \<in> set bs" by blast
  then show "slot (outcome bs rest) (n, Mate2) \<noteq> None" by (rule slot_outcome_binding(1))
qed

subsection \<open>The working sets of a run\<close>

lemma state_after_eq:
  "state_after rank fs k =
     (length (take k paired_patterns),
      foldl bind [] (all_bindings rank 0 (take k paired_patterns) (sort_key (rank 0) (remdups fs))),
      unbound rank 0 (take k paired_patterns) (sort_key (rank 0) (remdups fs)))"
  by (simp add: state_after_def run_eq)

lemma working_eq:
  "working rank fs k =
     unbound rank 0 (take k paired_patterns) (sort_key (rank 0) (remdups fs))"
  by (simp add: working_def state_after_eq)

lemma working_0: "working rank fs 0 = sort_key (rank 0) (remdups fs)"
  by (simp add: working_eq)

lemma set_working_0: "set (working rank fs 0) = set fs"
  by (simp add: working_0)

lemma state_after_Suc:
  assumes "i < length paired_patterns"
  shows "state_after rank fs (Suc i) = rule_pass rank (state_after rank fs i) (paired_patterns ! i)"
  by (simp add: state_after_def take_Suc_conv_app_nth[OF assms])

lemma working_Suc:
  assumes "i < length paired_patterns"
  shows "working rank fs (Suc i) =
    sort_key (rank (Suc i))
      (filter (\<lambda>f. f \<notin> bound_files (bindings (paired_patterns ! i) (working rank fs i)
                                   (working rank fs i)))
        (working rank fs i))"
proof -
  obtain k S W where st: "state_after rank fs i = (k, S, W)"
    by (cases "state_after rank fs i") auto
  from st state_after_eq[of rank fs i] assms have k: "k = i" by simp
  from st have W: "working rank fs i = W" by (simp add: working_def)
  show ?thesis
    by (simp add: working_def state_after_Suc[OF assms] st[unfolded k] rule_pass_eq W[unfolded working_def] st k)
qed

lemma working_beyond:
  assumes "length paired_patterns \<le> i"
  shows "working rank fs (Suc i) = working rank fs i"
  using assms by (simp add: working_eq)

lemma working_step: "set (working rank fs (Suc i)) \<subseteq> set (working rank fs i)"
proof (cases "i < length paired_patterns")
  case True
  then show ?thesis by (auto simp: working_Suc)
next
  case False
  then show ?thesis by (simp add: working_beyond)
qed

lemma working_mono: "i \<le> j \<Longrightarrow> set (working rank fs j) \<subseteq> set (working rank fs i)"
  by (rule lift_Suc_antimono_le[of "\<lambda>k. set (working rank fs k)"]) (rule working_step)

lemma claimed_bound:
  assumes "i < length paired_patterns" "f \<in> set (working rank fs i)"
    "f \<notin> set (working rank fs (Suc i))"
  shows "f \<in> bound_files (bindings (paired_patterns ! i) (working rank fs i) (working rank fs i))"
  using assms(2,3) by (simp add: working_Suc[OF assms(1)])

lemma unclaimed_eq_working: "unclaimed rank fs = working rank fs (length paired_patterns)"
  by (simp add: unclaimed_def working_def state_after_def)

lemma parse_fastq_pairs_phases:
  "parse_fastq_pairs rank fs = single_end (unclaimed rank fs) (paired_samples rank fs)"
  by (simp add: parse_fastq_pairs_def unclaimed_def paired_samples_def case_prod_beta)

lemma hit_stays:
  assumes i: "i < length paired_patterns" and f: "f \<in> set fs" and h: "hits (paired_patterns ! i) f"
  shows "f \<in> set (working rank fs i)"
proof (rule ccontr)
  assume "f \<notin> set (working rank fs i)"
  with f have "f \<in> bound_files (all_bindings rank 0 (take i paired_patterns) (sort_key (rank 0) (remdups fs)))"
    by (simp add: working_eq set_unbound)
  then obtain n g g' where "(n, f, g) \<in> set (all_bindings rank 0 (take i paired_patterns) (sort_key (rank 0) (remdups fs)))
      \<or> (n, g', f) \<in> set (all_bindings rank 0 (take i paired_patterns) (sort_key (rank 0) (remdups fs)))"
    by (auto simp: bound_files_iff)
  with all_bindings_sound[of n f g rank 0 "take i paired_patterns"]
    all_bindings_sound[of n g' f rank 0 "take i paired_patterns"]
  obtain r where r: "r \<in> set (take i paired_patterns)" and hr: "hits r f"
    unfolding hits_def by fastforce
  from r obtain j where j: "j < i" "r = paired_patterns ! j"
    by (auto simp: in_set_conv_nth)
  with i distinct_paired_patterns have ne: "r \<noteq> paired_patterns ! i"
    by (simp add: nth_eq_iff_index_eq)
  from j i have mem: "r \<in> set paired_patterns" "paired_patterns ! i \<in> set paired_patterns"
    by simp_all
  from exclusive_hits_ne[OF exclusive_paired_patterns mem ne hr] h show False by simp
qed

lemma pair_claimed:
  assumes i: "i < length paired_patterns" and f: "f1 \<in> set fs" "f2 \<in> set fs"
    and m: "re_match (fst (paired_patterns ! i)) (basename f1) = Some s"
      "re_match (snd (paired_patterns ! i)) (basename f2) = Some s"
  shows "f1 \<in> set (working rank fs i)" "f1 \<notin> set (working rank fs (Suc i))"
proof -
  from m have h: "hits (paired_patterns ! i) f1" "hits (paired_patterns ! i) f2"
    by (simp_all add: hits_def)
  show 1: "f1 \<in> set (working rank fs i)" by (rule hit_stays[OF i f(1) h(1)])
  have 2: "f2 \<in> set (working rank fs i)" by (rule hit_stays[OF i f(2) h(2)])
  from paired_is_bound[OF 1 2 m] show "f1 \<notin> set (working rank fs (Suc i))"
    by (simp add: working_Suc[OF i])
qed

subsection \<open>The order of the set and the result\<close>

lemma option_eqI:
  assumes "\<And>x. a = Some x \<longleftrightarrow> b = Some x"
  shows "a = b"
proof (cases a)
  case None
  show ?thesis
  proof (cases b)
    case None
    with \<open>a = None\<close> show ?thesis by simp
  next
    case (Some y)
    with assms[of y] None show ?thesis by simp
  qed
next
  case (Some x)
  with assms[of x] show ?thesis by simp
qed

lemma map_of_outcome_cong:
  assumes ex: "exclusive rs" and r1: "resolution rs fs bs rest"
    and r2: "resolution rs fs bs' rest'" and inj: "inj_on (destination rs fs) (set fs)"
  shows "map_of (outcome bs rest) = map_of (outcome bs' rest')"
proof (rule map_of_eq_slots)
  show "well_formed (outcome bs rest)" by (rule well_formed_outcome)
  show "well_formed (outcome bs' rest')" by (rule well_formed_outcome)
  fix k
  show "slot (outcome bs rest) k = slot (outcome bs' rest') k"
  proof (rule option_eqI)
    fix x
    show "slot (outcome bs rest) k = Some x \<longleftrightarrow> slot (outcome bs' rest') k = Some x"
      unfolding slot_outcome_iff[OF ex r1 inj] slot_outcome_iff[OF ex r2 inj] ..
  qed
qed

lemma parse_fastq_pairs_any_order:
  assumes "set xs = set ys" "inj_on (destination paired_patterns xs) (set xs)"
  shows "map_of (parse_fastq_pairs p xs) = map_of (parse_fastq_pairs q ys)"
proof -
  obtain bs rest where 1: "parse_fastq_pairs p xs = outcome bs rest"
    "resolution paired_patterns xs bs rest" by (rule parse_fastq_pairs_resolution)
  obtain bs' rest' where 2: "parse_fastq_pairs q ys = outcome bs' rest'"
    "resolution paired_patterns ys bs' rest'" by (rule parse_fastq_pairs_resolution)
  from resolution_cong_set[OF assms(1)[symmetric] 2(2)]
  have 3: "resolution paired_patterns xs bs' rest'" .
  show ?thesis unfolding 1(1) 2(1)
    by (rule map_of_outcome_cong[OF exclusive_paired_patterns 1(2) 3 assms(2)])
qed

text \<open>Every order of a set of files is the order of some ranking.\<close>

lemma position_nth:
  assumes "distinct ys" "i < length ys"
  shows "length (takeWhile (\<lambda>g. g \<noteq> ys ! i) ys) = i"
  using assms
proof (induction ys arbitrary: i)
  case Nil
  then show ?case by simp
next
  case (Cons y ys)
  show ?case
  proof (cases i)
    case 0
    then show ?thesis by simp
  next
    case (Suc j)
    with Cons.prems have j: "j < length ys" "ys ! j \<noteq> y" by auto
    with Cons.IH[of j] Cons.prems(1) Suc show ?thesis by simp
  qed
qed

lemma filter_eq_single:
  assumes "distinct xs" "k \<in> set xs"
  shows "filter (\<lambda>x. k = x) xs = [k]"
  using assms by (induction xs) (auto simp: filter_empty_conv)

lemma every_order_has_a_rank:
  assumes "distinct xs" "distinct ys" "set xs = set ys"
  shows "sort_key (\<lambda>f. length (takeWhile (\<lambda>g. g \<noteq> f) ys)) xs = ys"
proof (rule properties_for_sort_key)
  let ?r = "\<lambda>f. length (takeWhile (\<lambda>g. g \<noteq> f) ys)"
  from assms show "mset ys = mset xs"
    by (simp add: set_eq_iff_mset_eq_distinct)
  have nth: "?r (ys ! i) = i" if "i < length ys" for i
    using that assms(2) by (rule position_nth[rotated])
  have inj: "a = b" if "a \<in> set ys" "b \<in> set ys" "?r a = ?r b" for a b
  proof -
    from that(1,2) obtain i j where "i < length ys" "a = ys ! i" "j < length ys" "b = ys ! j"
      by (auto simp: in_set_conv_nth)
    with that(3) nth show ?thesis by simp
  qed
  show "filter (\<lambda>x. ?r k = ?r x) ys = filter (\<lambda>x. ?r k = ?r x) xs" if "k \<in> set ys" for k
  proof -
    have "filter (\<lambda>x. ?r k = ?r x) ys = filter (\<lambda>x. k = x) ys"
      by (rule filter_cong) (use inj that in auto)
    moreover have "filter (\<lambda>x. ?r k = ?r x) xs = filter (\<lambda>x. k = x) xs"
      by (rule filter_cong) (use inj that assms(3) in auto)
    moreover have "filter (\<lambda>x. k = x) ys = [k]" "filter (\<lambda>x. k = x) xs = [k]"
      using that assms by (simp_all add: filter_eq_single)
    ultimately show ?thesis by simp
  qed
  have "map ?r ys = [0..<length ys]"
    by (rule nth_equalityI) (simp_all add: nth)
  then show "sorted (map ?r ys)" by simp
qed

subsection \<open>Pairs under each rule\<close>

lemma slot_Mate2_Mate1:
  assumes "well_formed S" "slot S (n, Mate2) \<noteq> None"
  shows "slot S (n, Mate1) \<noteq> None"
proof -
  from assms(2) obtain r where m: "map_of S n = Some r"
    by (auto simp: slot.simps split: option.splits)
  from well_formed_R1[OF assms(1) m] m show ?thesis by (simp add: slot.simps)
qed

lemma pair_slots:
  assumes r: "r \<in> set paired_patterns" and f: "f1 \<in> set fs" "f2 \<in> set fs"
    and m: "re_match (fst r) (basename f1) = Some s" "re_match (snd r) (basename f2) = Some s"
  shows "slot (parse_fastq_pairs rank fs) (s, Mate1) \<noteq> None"
    "slot (parse_fastq_pairs rank fs) (s, Mate2) \<noteq> None"
proof -
  obtain bs rest where eq: "parse_fastq_pairs rank fs = outcome bs rest"
    and res: "resolution paired_patterns fs bs rest" by (rule parse_fastq_pairs_resolution)
  from r f m have "\<exists>r\<in>set paired_patterns. \<exists>f1\<in>set fs. \<exists>f2\<in>set fs.
        re_match (fst r) (basename f1) = Some s \<and> re_match (snd r) (basename f2) = Some s"
    by blast
  then show 2: "slot (parse_fastq_pairs rank fs) (s, Mate2) \<noteq> None"
    unfolding eq by (simp only: slot_outcome_Mate2_iff[OF res])
  show "slot (parse_fastq_pairs rank fs) (s, Mate1) \<noteq> None"
    by (rule slot_Mate2_Mate1[OF _ 2]) (simp add: eq well_formed_outcome)
qed

lemma parse_fastq_pairs_run:
  "parse_fastq_pairs rank fs =
     single_end (working rank fs (length paired_patterns))
       (fst (snd (state_after rank fs (length paired_patterns))))"
  by (simp add: parse_fastq_pairs_def working_def state_after_def case_prod_beta)

lemma state_after_0: "state_after rank fs 0 = (0, [], sort_key (rank 0) (remdups fs))"
  by (simp add: state_after_def)

lemma rule2_pairs:
  "map_of (parse_fastq_pairs rank [''B_1.fq.gz'', ''B_2.fq.gz'']) =
     map_of [(''B'', \<lparr>R1 = Some ''B_1.fq.gz'', R2 = Some ''B_2.fq.gz''\<rparr>)]"
proof -
  have "inj_on (destination paired_patterns [''B_1.fq.gz'', ''B_2.fq.gz''])
      (set [''B_1.fq.gz'', ''B_2.fq.gz''])"
    by (simp add: eval_defs single_name_def)
  from parse_fastq_pairs_any_order[OF refl this, of rank insertion_order]
  show ?thesis by (simp add: eval_defs)
qed

lemma rule3_pairs:
  "map_of (parse_fastq_pairs rank [''C.R1.fastq'', ''C.R2.fastq'']) =
     map_of [(''C'', \<lparr>R1 = Some ''C.R1.fastq'', R2 = Some ''C.R2.fastq''\<rparr>)]"
proof -
  have "inj_on (destination paired_patterns [''C.R1.fastq'', ''C.R2.fastq''])
      (set [''C.R1.fastq'', ''C.R2.fastq''])"
    by (simp add: eval_defs single_name_def)
  from parse_fastq_pairs_any_order[OF refl this, of rank insertion_order]
  show ?thesis by (simp add: eval_defs)
qed

lemma rule4_pairs:
  "map_of (parse_fastq_pairs rank [''D.1.fq'', ''D.2.fq'']) =
     map_of [(''D'', \<lparr>R1 = Some ''D.1.fq'', R2 = Some ''D.2.fq''\<rparr>)]"
proof -
  have "inj_on (destination paired_patterns [''D.1.fq'', ''D.2.fq''])
      (set [''D.1.fq'', ''D.2.fq''])"
    by (simp add: eval_defs single_name_def)
  from parse_fastq_pairs_any_order[OF refl this, of rank insertion_order]
  show ?thesis by (simp add: eval_defs)
qed

lemma rule2_no_lane_suffix:
  "map_of (parse_fastq_pairs rank [''B_1_001.fq.gz'', ''B_2_001.fq.gz'']) =
     map_of [(''B_1_001'', \<lparr>R1 = Some ''B_1_001.fq.gz'', R2 = None\<rparr>),
             (''B_2_001'', \<lparr>R1 = Some ''B_2_001.fq.gz'', R2 = None\<rparr>)]"
proof -
  have "inj_on (destination paired_patterns [''B_1_001.fq.gz'', ''B_2_001.fq.gz''])
      (set [''B_1_001.fq.gz'', ''B_2_001.fq.gz''])"
    by (simp add: eval_defs single_name_def)
  from parse_fastq_pairs_any_order[OF refl this, of rank insertion_order]
  show ?thesis by (simp add: eval_defs)
qed

subsection \<open>The write loop\<close>

lemma write_rows_eq:
  "write_rows items strandedness s3_prefix f =
     f @ concat (map (csv_row strandedness s3_prefix) items)"
proof (induction items arbitrary: f)
  case Nil
  show ?case by simp
next
  case (Cons item items)
  obtain name r where item: "item = (name, r)" by (cases item) auto
  show ?case unfolding item
    by (simp add: Cons Let_def csv_row_def fastq_1_def fastq_2_def
        split: option.splits prod.splits)
qed

lemma write_samplesheet_eq:
  "write_samplesheet samples strandedness s3_prefix = samplesheet samples strandedness s3_prefix"
  by (simp add: write_samplesheet_def samplesheet_def write_rows_eq)

subsection \<open>Replacement of a substring\<close>

lemma replace_scan_skip:
  "length xs = k \<Longrightarrow> replace_scan old new k (xs @ b) = replace_scan old new 0 b"
  by (induction xs arbitrary: k) auto

lemma replace_scan_occurrence:
  assumes "old \<noteq> []"
  shows "replace_scan old new 0 (old @ b) = new @ replace_scan old new 0 b"
proof -
  from assms obtain c cs where old: "old = c # cs" by (cases old) auto
  have "replace_scan old new 0 (c # cs @ b) = new @ replace_scan old new (length old - 1) (cs @ b)"
    by (simp add: old)
  also have "replace_scan old new (length old - 1) (cs @ b) = replace_scan old new 0 b"
    by (rule replace_scan_skip) (simp add: old)
  finally show ?thesis by (simp add: old)
qed

lemma prefix_append_short:
  assumes "prefix xs (ys @ zs)" "length xs \<le> length ys" shows "prefix xs ys"
  using assms by (auto simp: prefix_append)

lemma replace_scan_leftmost:
  assumes "old \<noteq> []" "\<not> sublist old (a @ butlast old)"
  shows "replace_scan old new 0 (a @ old @ b) = a @ new @ replace_scan old new 0 b"
  using assms(2)
proof (induction a)
  case Nil
  show ?case by (simp add: replace_scan_occurrence[OF assms(1)])
next
  case (Cons c a)
  from Cons.prems have np: "\<not> prefix old (c # a @ butlast old)" and ns: "\<not> sublist old (a @ butlast old)"
    by (simp_all add: sublist_Cons_right)
  have "\<not> prefix old (c # a @ old @ b)"
  proof
    assume p: "prefix old (c # a @ old @ b)"
    have "c # a @ old @ b = (c # a @ butlast old) @ (last old # b)"
      using assms(1) by simp
    with p have "prefix old ((c # a @ butlast old) @ (last old # b))" by simp
    moreover have "length old \<le> length (c # a @ butlast old)" using assms(1) by simp
    ultimately have "prefix old (c # a @ butlast old)" by (rule prefix_append_short)
    with np show False by simp
  qed
  then have "replace_scan old new 0 (c # a @ old @ b) = c # replace_scan old new 0 (a @ old @ b)"
    by simp
  with Cons.IH[OF ns] show ?case by simp
qed

lemma replace_scan_absent:
  "\<not> sublist old p \<Longrightarrow> replace_scan old new 0 p = p"
  by (induction p) (auto simp: sublist_Cons_right)

section \<open>Scenario: a lone mate-1 file\<close>

text \<open>
  C6. For the input \<^verbatim>\<open>{"D_R1.fastq.gz"}\<close> the result is, whatever the order of the
  set, one record, named \<^verbatim>\<open>D_R1\<close> (the basename without its fastq extension, not the stem \<^verbatim>\<open>D\<close>), whose
  mate-1 slot holds the file and whose mate-2 slot is absent.
\<close>

theorem lone_mate1_is_single_end:
  "parse_fastq_pairs rank [''D_R1.fastq.gz''] =
     [(''D_R1'', \<lparr>R1 = Some ''D_R1.fastq.gz'', R2 = None\<rparr>)]"
  by (simp add: eval_defs)

section \<open>Every input file in exactly one slot\<close>

text \<open>
  C1, as stated, fails: two files with the same name in two directories are both
  single-end samples of the same name, the second assignment overwrites the first, and
  one of the two files is in no slot of the result, whichever of them the set yields
  first.
\<close>

theorem files_dropped_on_collision:
  "set (slot_files (parse_fastq_pairs insertion_order [''run1/X.fastq.gz'', ''run2/X.fastq.gz'']))
     \<noteq> set [''run1/X.fastq.gz'', ''run2/X.fastq.gz''] \<and>
   set (slot_files (parse_fastq_pairs insertion_order [''run2/X.fastq.gz'', ''run1/X.fastq.gz'']))
     \<noteq> set [''run2/X.fastq.gz'', ''run1/X.fastq.gz''] \<and>
   set (slot_files (parse_fastq_pairs run2_first [''run1/X.fastq.gz'', ''run2/X.fastq.gz'']))
     \<noteq> set [''run1/X.fastq.gz'', ''run2/X.fastq.gz'']"
  by (simp add: eval_defs run2_first_def)

text \<open>
  C1, amended. For every input and every order of the set, every slot of the result holds
  an input file and no file is held by two slots. When no two input files have the same destination, the values
  of the slots are exactly the input files. (A file is missing from the result only
  when another file was assigned to the same slot after it.)
\<close>

theorem slots_hold_input_files:
  "set (slot_files (parse_fastq_pairs rank fs)) \<subseteq> set fs \<and>
   distinct (slot_files (parse_fastq_pairs rank fs)) \<and>
   (inj_on (destination paired_patterns fs) (set fs) \<longrightarrow>
      set (slot_files (parse_fastq_pairs rank fs)) = set fs)"
proof -
  obtain bs rest where 1: "parse_fastq_pairs rank fs = outcome bs rest"
    and 2: "resolution paired_patterns fs bs rest" by (rule parse_fastq_pairs_resolution)
  show ?thesis unfolding 1
    using slot_files_outcome[OF exclusive_paired_patterns 2] by blast
qed

theorem slots_hold_input_files_witness:
  "inj_on (destination paired_patterns [''A_R1.fq'', ''A_R2.fq'', ''C.fq''])
     (set [''A_R1.fq'', ''A_R2.fq'', ''C.fq'']) \<and>
   set (slot_files (parse_fastq_pairs insertion_order [''A_R1.fq'', ''A_R2.fq'', ''C.fq''])) =
     set [''A_R1.fq'', ''A_R2.fq'', ''C.fq'']"
proof -
  have h: "inj_on (destination paired_patterns [''A_R1.fq'', ''A_R2.fq'', ''C.fq''])
     (set [''A_R1.fq'', ''A_R2.fq'', ''C.fq''])"
    by (simp add: eval_defs single_name_def)
  with slots_hold_input_files[of insertion_order "[''A_R1.fq'', ''A_R2.fq'', ''C.fq'']"]
  show ?thesis by blast
qed

section \<open>The same input in another order\<close>

text \<open>
  C8, as stated, fails: two runs on the same input can differ, because the order in
  which the set yields the files is not fixed. With the two files of the same name in
  two directories, the sample holds the file of the second directory in one order and
  the file of the first directory in another.
\<close>

theorem result_depends_on_iteration_order:
  "map_of (parse_fastq_pairs insertion_order [''run1/X.fastq.gz'', ''run2/X.fastq.gz'']) ''X''
     \<noteq> map_of (parse_fastq_pairs run2_first [''run1/X.fastq.gz'', ''run2/X.fastq.gz'']) ''X''"
  by (simp add: eval_defs run2_first_def)

text \<open>
  C8, amended. When no two input files have the same destination, two runs on the same
  set of input files give the same mapping from sample names to records, whatever the
  orders in which the set yields its files at the start and after each removal, in the
  one run and in the other.
\<close>

theorem order_independent_without_collisions:
  assumes "set xs = set ys" "inj_on (destination paired_patterns xs) (set xs)"
  shows "map_of (parse_fastq_pairs p xs) = map_of (parse_fastq_pairs q ys)"
  using assms by (rule parse_fastq_pairs_any_order)

theorem order_independent_without_collisions_witness:
  "set [''A_R1.fq'', ''A_R2.fq'', ''C.fq''] = set [''C.fq'', ''A_R2.fq'', ''A_R1.fq''] \<and>
   inj_on (destination paired_patterns [''A_R1.fq'', ''A_R2.fq'', ''C.fq''])
     (set [''A_R1.fq'', ''A_R2.fq'', ''C.fq'']) \<and>
   map_of (parse_fastq_pairs insertion_order [''A_R1.fq'', ''A_R2.fq'', ''C.fq'']) =
     map_of (parse_fastq_pairs run2_first [''C.fq'', ''A_R2.fq'', ''A_R1.fq''])"
proof -
  have 1: "set [''A_R1.fq'', ''A_R2.fq'', ''C.fq''] = set [''C.fq'', ''A_R2.fq'', ''A_R1.fq'']"
    by auto
  have 2: "inj_on (destination paired_patterns [''A_R1.fq'', ''A_R2.fq'', ''C.fq''])
     (set [''A_R1.fq'', ''A_R2.fq'', ''C.fq''])"
    by (simp add: eval_defs single_name_def)
  from order_independent_without_collisions[OF 1 2, of insertion_order run2_first] 1 2
  show ?thesis by blast
qed

section \<open>Mate slots\<close>

text \<open>
  C3. In every order, every record of the result has its mate-1 slot populated, and the mate-2 slot of
  the record of a sample name is populated if and only if, for some rule, the input has
  a file whose basename matches the mate-1 pattern and a file whose basename matches
  the mate-2 pattern of the rule, both with that sample name as their stem.
\<close>

theorem mate_slots_invariant:
  assumes "(n, r) \<in> set (parse_fastq_pairs rank fs)"
  shows "R1 r \<noteq> None \<and>
    (R2 r \<noteq> None \<longleftrightarrow>
       (\<exists>rule\<in>set paired_patterns. \<exists>f1\<in>set fs. \<exists>f2\<in>set fs.
          re_match (fst rule) (basename f1) = Some n \<and>
          re_match (snd rule) (basename f2) = Some n))"
proof -
  obtain bs rest where 1: "parse_fastq_pairs rank fs = outcome bs rest"
    and 2: "resolution paired_patterns fs bs rest" by (rule parse_fastq_pairs_resolution)
  from assms have mem: "(n, r) \<in> set (outcome bs rest)" by (simp add: 1)
  note l = well_formed_lookup[OF well_formed_outcome mem]
  from l(2) slot_outcome_Mate2_iff[OF 2, of n] show ?thesis
    by (simp add: l(3))
qed

theorem mate_slots_invariant_witness:
  "(''A'', \<lparr>R1 = Some ''A_R1.fq.gz'', R2 = Some ''A_R2.fq.gz''\<rparr>)
      \<in> set (parse_fastq_pairs insertion_order [''A_R1.fq.gz'', ''A_R2.fq.gz'', ''B_R1.fq.gz'']) \<and>
   (\<exists>rule\<in>set paired_patterns.
      \<exists>f1\<in>set [''A_R1.fq.gz'', ''A_R2.fq.gz'', ''B_R1.fq.gz''].
      \<exists>f2\<in>set [''A_R1.fq.gz'', ''A_R2.fq.gz'', ''B_R1.fq.gz''].
        re_match (fst rule) (basename f1) = Some ''A'' \<and>
        re_match (snd rule) (basename f2) = Some ''A'')"
proof -
  have h: "(''A'', \<lparr>R1 = Some ''A_R1.fq.gz'', R2 = Some ''A_R2.fq.gz''\<rparr>)
      \<in> set (parse_fastq_pairs insertion_order [''A_R1.fq.gz'', ''A_R2.fq.gz'', ''B_R1.fq.gz''])"
    by (simp add: eval_defs)
  from mate_slots_invariant[OF h] h show ?thesis by simp
qed

section \<open>Bindings of a stem in one rule pass\<close>

text \<open>
  C2, as stated, fails: with the same sample in two run directories, the pass of the
  first rule binds the stem \<^verbatim>\<open>A\<close> twice, once for each mate-1 file, and both times
  with the mate-2 file that the set yields first.
\<close>

theorem stem_binds_twice:
  "bindings (MatePattern ''_R1'' True, MatePattern ''_R2'' True)
     [''run1/A_R1.fastq.gz'', ''run1/A_R2.fastq.gz'', ''run2/A_R1.fastq.gz'', ''run2/A_R2.fastq.gz'']
     [''run1/A_R1.fastq.gz'', ''run1/A_R2.fastq.gz'', ''run2/A_R1.fastq.gz'', ''run2/A_R2.fastq.gz'']
   = [(''A'', ''run1/A_R1.fastq.gz'', ''run1/A_R2.fastq.gz''),
      (''A'', ''run2/A_R1.fastq.gz'', ''run1/A_R2.fastq.gz'')] \<and>
   \<not> length (stem_bindings ''A''
        (bindings (MatePattern ''_R1'' True, MatePattern ''_R2'' True)
          [''run1/A_R1.fastq.gz'', ''run1/A_R2.fastq.gz'', ''run2/A_R1.fastq.gz'', ''run2/A_R2.fastq.gz'']
          [''run1/A_R1.fastq.gz'', ''run1/A_R2.fastq.gz'', ''run2/A_R1.fastq.gz'', ''run2/A_R2.fastq.gz''])) \<le> 1"
  by (simp add: eval_defs stem_bindings_def)

text \<open>
  C2, amended. The loop of a rule applies the bindings one after the other, so that a
  later binding of a stem overwrites an earlier one. A stem is bound once for every file
  of the working set whose basename matches the mate-1 pattern with that stem, provided
  that the working set has a file that matches the mate-2 pattern with that stem; so it
  is bound at most once when at most one file of the working set has that mate-1 stem.
\<close>

theorem stem_binds_once_per_mate1_file:
  "pair_loop rule W W (samples, {}) =
     (foldl bind samples (bindings rule W W), bound_files (bindings rule W W)) \<and>
   length (stem_bindings s (bindings rule W W)) =
     length (filter (\<lambda>f. re_match (fst rule) (basename f) = Some s \<and>
                          (\<exists>g\<in>set W. re_match (snd rule) (basename g) = Some s)) W) \<and>
   (distinct W \<and>
    (\<forall>f\<in>set W. \<forall>f'\<in>set W.
        re_match (fst rule) (basename f) = Some s \<and> re_match (fst rule) (basename f') = Some s
        \<longrightarrow> f = f')
    \<longrightarrow> length (stem_bindings s (bindings rule W W)) \<le> 1)"
proof (intro conjI impI)
  show "pair_loop rule W W (samples, {}) =
     (foldl bind samples (bindings rule W W), bound_files (bindings rule W W))"
    by (simp add: pair_loop_eq)
  show "length (stem_bindings s (bindings rule W W)) =
     length (filter (\<lambda>f. re_match (fst rule) (basename f) = Some s \<and>
                          (\<exists>g\<in>set W. re_match (snd rule) (basename g) = Some s)) W)"
    by (rule length_stem_bindings)
  assume a: "distinct W \<and>
    (\<forall>f\<in>set W. \<forall>f'\<in>set W.
        re_match (fst rule) (basename f) = Some s \<and> re_match (fst rule) (basename f') = Some s
        \<longrightarrow> f = f')"
  have "length (filter (\<lambda>f. re_match (fst rule) (basename f) = Some s \<and>
                          (\<exists>g\<in>set W. re_match (snd rule) (basename g) = Some s)) W) \<le> 1"
    by (rule length_filter_le_1) (use a in auto)
  then show "length (stem_bindings s (bindings rule W W)) \<le> 1"
    by (simp add: length_stem_bindings)
qed

theorem stem_binds_once_per_mate1_file_witness:
  "distinct [''A_R1.fq.gz'', ''A_R2.fq.gz'', ''B_R1.fq.gz''] \<and>
   length (stem_bindings ''A''
     (bindings (MatePattern ''_R1'' True, MatePattern ''_R2'' True)
        [''A_R1.fq.gz'', ''A_R2.fq.gz'', ''B_R1.fq.gz'']
        [''A_R1.fq.gz'', ''A_R2.fq.gz'', ''B_R1.fq.gz''])) \<le> 1"
proof -
  have m: "re_match (MatePattern ''_R1'' True) (basename ''A_R1.fq.gz'') = Some ''A''"
    "re_match (MatePattern ''_R1'' True) (basename ''A_R2.fq.gz'') = None"
    "re_match (MatePattern ''_R1'' True) (basename ''B_R1.fq.gz'') = Some ''B''"
    by (simp_all add: eval_defs)
  have h: "distinct [''A_R1.fq.gz'', ''A_R2.fq.gz'', ''B_R1.fq.gz''] \<and>
   (\<forall>f\<in>set [''A_R1.fq.gz'', ''A_R2.fq.gz'', ''B_R1.fq.gz''].
    \<forall>f'\<in>set [''A_R1.fq.gz'', ''A_R2.fq.gz'', ''B_R1.fq.gz''].
      re_match (fst (MatePattern ''_R1'' True, MatePattern ''_R2'' True)) (basename f) = Some ''A'' \<and>
      re_match (fst (MatePattern ''_R1'' True, MatePattern ''_R2'' True)) (basename f') = Some ''A''
      \<longrightarrow> f = f')"
    by (simp add: m)
  note t = stem_binds_once_per_mate1_file
    [of "(MatePattern ''_R1'' True, MatePattern ''_R2'' True)"
        "[''A_R1.fq.gz'', ''A_R2.fq.gz'', ''B_R1.fq.gz'']" "[]" "''A''"]
  from t[THEN conjunct2, THEN conjunct2, THEN mp, OF h] h[THEN conjunct1] show ?thesis
    by (intro conjI)
qed

section \<open>Rule priority\<close>

text \<open>
  C4. The rules are, in this order, \<^verbatim>\<open>_R1/_R2\<close> with the optional \<^verbatim>\<open>_001\<close>,
  \<^verbatim>\<open>_1/_2\<close>, \<^verbatim>\<open>.R1/.R2\<close> and \<^verbatim>\<open>.1/.2\<close>, the last three without that
  option. A run of \<^verbatim>\<open>parse_fastq_pairs\<close> starts from the set of the input files and no
  samples, makes the pass of each rule in this order on the state that the rule before
  it left, and ends with the single-end loop on the working set and the samples that
  the pass of the last rule left. For every order of the set and for every rule: a file
  of the input that matches the mate-1 pattern of the rule, with an input file that
  matches its mate-2 pattern with the same stem, is in the working set when the pass of
  that rule starts, is removed by that pass, and both slots of its stem are populated in
  the result. A file that a pass removes is in no later working set and in no binding of
  a later rule. Such a file matches a pattern of the rule that claimed it, and a file
  that matches a pattern of one rule matches no pattern of another, so the first
  matching rule is the only one. The files \<^verbatim>\<open>S_1_R1.fastq.gz\<close> and
  \<^verbatim>\<open>S_1_R2.fastq.gz\<close>, which contain \<^verbatim>\<open>_1\<close>, are paired by the first rule under
  the stem \<^verbatim>\<open>S_1\<close>; the first rule pairs \<^verbatim>\<open>A_R1_001.fastq.gz\<close> with
  \<^verbatim>\<open>A_R2_001.fastq.gz\<close>, the second \<^verbatim>\<open>B_1.fq.gz\<close> with \<^verbatim>\<open>B_2.fq.gz\<close>, the
  third \<^verbatim>\<open>C.R1.fastq\<close> with \<^verbatim>\<open>C.R2.fastq\<close>, the fourth \<^verbatim>\<open>D.1.fq\<close> with
  \<^verbatim>\<open>D.2.fq\<close>, and no rule pairs \<^verbatim>\<open>B_1_001.fq.gz\<close> with \<^verbatim>\<open>B_2_001.fq.gz\<close>.
\<close>

theorem rule_priority:
  "paired_patterns =
     [(MatePattern ''_R1'' True, MatePattern ''_R2'' True),
      (MatePattern ''_1'' False, MatePattern ''_2'' False),
      (MatePattern ''.R1'' False, MatePattern ''.R2'' False),
      (MatePattern ''.1'' False, MatePattern ''.2'' False)] \<and>
   state_after rank fs 0 = (0, [], sort_key (rank 0) (remdups fs)) \<and>
   (\<forall>i. i < length paired_patterns \<longrightarrow>
      state_after rank fs (Suc i) =
        rule_pass rank (state_after rank fs i) (paired_patterns ! i)) \<and>
   parse_fastq_pairs rank fs =
     single_end (working rank fs (length paired_patterns))
       (fst (snd (state_after rank fs (length paired_patterns)))) \<and>
   (\<forall>i f1 f2 s. i < length paired_patterns \<and> f1 \<in> set fs \<and> f2 \<in> set fs \<and>
        re_match (fst (paired_patterns ! i)) (basename f1) = Some s \<and>
        re_match (snd (paired_patterns ! i)) (basename f2) = Some s
      \<longrightarrow> f1 \<in> set (working rank fs i) \<and> f1 \<notin> set (working rank fs (Suc i)) \<and>
          slot (parse_fastq_pairs rank fs) (s, Mate1) \<noteq> None \<and>
          slot (parse_fastq_pairs rank fs) (s, Mate2) \<noteq> None) \<and>
   (\<forall>i j f. i < j \<and> f \<in> set (working rank fs i) \<and> f \<notin> set (working rank fs (Suc i))
      \<longrightarrow> f \<notin> set (working rank fs j) \<and>
          f \<notin> bound_files (bindings (paired_patterns ! j) (working rank fs j)
                              (working rank fs j))) \<and>
   (\<forall>i f. i < length paired_patterns \<and> f \<in> set (working rank fs i) \<and>
        f \<notin> set (working rank fs (Suc i))
      \<longrightarrow> hits (paired_patterns ! i) f) \<and>
   (\<forall>i j f. i < length paired_patterns \<and> j < length paired_patterns \<and> i \<noteq> j \<and>
      hits (paired_patterns ! i) f \<longrightarrow> \<not> hits (paired_patterns ! j) f) \<and>
   parse_fastq_pairs rank [''S_1_R1.fastq.gz'', ''S_1_R2.fastq.gz''] =
     [(''S_1'', \<lparr>R1 = Some ''S_1_R1.fastq.gz'', R2 = Some ''S_1_R2.fastq.gz''\<rparr>)] \<and>
   parse_fastq_pairs rank [''A_R1_001.fastq.gz'', ''A_R2_001.fastq.gz''] =
     [(''A'', \<lparr>R1 = Some ''A_R1_001.fastq.gz'', R2 = Some ''A_R2_001.fastq.gz''\<rparr>)] \<and>
   map_of (parse_fastq_pairs rank [''B_1.fq.gz'', ''B_2.fq.gz'']) =
     map_of [(''B'', \<lparr>R1 = Some ''B_1.fq.gz'', R2 = Some ''B_2.fq.gz''\<rparr>)] \<and>
   map_of (parse_fastq_pairs rank [''C.R1.fastq'', ''C.R2.fastq'']) =
     map_of [(''C'', \<lparr>R1 = Some ''C.R1.fastq'', R2 = Some ''C.R2.fastq''\<rparr>)] \<and>
   map_of (parse_fastq_pairs rank [''D.1.fq'', ''D.2.fq'']) =
     map_of [(''D'', \<lparr>R1 = Some ''D.1.fq'', R2 = Some ''D.2.fq''\<rparr>)] \<and>
   map_of (parse_fastq_pairs rank [''B_1_001.fq.gz'', ''B_2_001.fq.gz'']) =
     map_of [(''B_1_001'', \<lparr>R1 = Some ''B_1_001.fq.gz'', R2 = None\<rparr>),
             (''B_2_001'', \<lparr>R1 = Some ''B_2_001.fq.gz'', R2 = None\<rparr>)]"
proof (intro conjI allI impI)
  show "paired_patterns =
     [(MatePattern ''_R1'' True, MatePattern ''_R2'' True),
      (MatePattern ''_1'' False, MatePattern ''_2'' False),
      (MatePattern ''.R1'' False, MatePattern ''.R2'' False),
      (MatePattern ''.1'' False, MatePattern ''.2'' False)]"
    by (rule paired_patterns_def)
  show "state_after rank fs 0 = (0, [], sort_key (rank 0) (remdups fs))"
    by (rule state_after_0)
  show "parse_fastq_pairs rank fs =
     single_end (working rank fs (length paired_patterns))
       (fst (snd (state_after rank fs (length paired_patterns))))"
    by (rule parse_fastq_pairs_run)
next
  fix i assume "i < length paired_patterns"
  then show "state_after rank fs (Suc i) =
        rule_pass rank (state_after rank fs i) (paired_patterns ! i)"
    by (rule state_after_Suc)
next
  fix i f1 f2 s
  assume a: "i < length paired_patterns \<and> f1 \<in> set fs \<and> f2 \<in> set fs \<and>
        re_match (fst (paired_patterns ! i)) (basename f1) = Some s \<and>
        re_match (snd (paired_patterns ! i)) (basename f2) = Some s"
  then have i: "i < length paired_patterns" and f: "f1 \<in> set fs" "f2 \<in> set fs"
    and m: "re_match (fst (paired_patterns ! i)) (basename f1) = Some s"
      "re_match (snd (paired_patterns ! i)) (basename f2) = Some s" by simp_all
  from i have r: "paired_patterns ! i \<in> set paired_patterns" by simp
  show "f1 \<in> set (working rank fs i)" by (rule pair_claimed(1)[OF i f m])
  show "f1 \<notin> set (working rank fs (Suc i))" by (rule pair_claimed(2)[OF i f m])
  show "slot (parse_fastq_pairs rank fs) (s, Mate1) \<noteq> None" by (rule pair_slots(1)[OF r f m])
  show "slot (parse_fastq_pairs rank fs) (s, Mate2) \<noteq> None" by (rule pair_slots(2)[OF r f m])
next
  fix i j f
  assume a: "i < j \<and> f \<in> set (working rank fs i) \<and> f \<notin> set (working rank fs (Suc i))"
  then have "Suc i \<le> j" by simp
  from working_mono[OF this, of rank fs] a show 1: "f \<notin> set (working rank fs j)" by blast
  show "f \<notin> bound_files (bindings (paired_patterns ! j) (working rank fs j) (working rank fs j))"
    using bound_files_hits[of f "paired_patterns ! j" "working rank fs j" "working rank fs j"] 1
    by blast
next
  fix i f
  assume a: "i < length paired_patterns \<and> f \<in> set (working rank fs i) \<and>
        f \<notin> set (working rank fs (Suc i))"
  then have "f \<in> bound_files (bindings (paired_patterns ! i) (working rank fs i) (working rank fs i))"
    by (intro claimed_bound) simp_all
  then show "hits (paired_patterns ! i) f" by (simp add: bound_files_hits)
next
  fix i j f
  assume a: "i < length paired_patterns \<and> j < length paired_patterns \<and> i \<noteq> j \<and>
      hits (paired_patterns ! i) f"
  with distinct_paired_patterns have "paired_patterns ! i \<noteq> paired_patterns ! j"
    by (simp add: nth_eq_iff_index_eq)
  with exclusive_hits_ne[OF exclusive_paired_patterns, of "paired_patterns ! i" "paired_patterns ! j" f] a
  show "\<not> hits (paired_patterns ! j) f" by simp
next
  show "parse_fastq_pairs rank [''S_1_R1.fastq.gz'', ''S_1_R2.fastq.gz''] =
     [(''S_1'', \<lparr>R1 = Some ''S_1_R1.fastq.gz'', R2 = Some ''S_1_R2.fastq.gz''\<rparr>)]"
    by (simp add: eval_defs)
  show "parse_fastq_pairs rank [''A_R1_001.fastq.gz'', ''A_R2_001.fastq.gz''] =
     [(''A'', \<lparr>R1 = Some ''A_R1_001.fastq.gz'', R2 = Some ''A_R2_001.fastq.gz''\<rparr>)]"
    by (simp add: eval_defs)
  show "map_of (parse_fastq_pairs rank [''B_1.fq.gz'', ''B_2.fq.gz'']) =
     map_of [(''B'', \<lparr>R1 = Some ''B_1.fq.gz'', R2 = Some ''B_2.fq.gz''\<rparr>)]"
    by (rule rule2_pairs)
  show "map_of (parse_fastq_pairs rank [''C.R1.fastq'', ''C.R2.fastq'']) =
     map_of [(''C'', \<lparr>R1 = Some ''C.R1.fastq'', R2 = Some ''C.R2.fastq''\<rparr>)]"
    by (rule rule3_pairs)
  show "map_of (parse_fastq_pairs rank [''D.1.fq'', ''D.2.fq'']) =
     map_of [(''D'', \<lparr>R1 = Some ''D.1.fq'', R2 = Some ''D.2.fq''\<rparr>)]"
    by (rule rule4_pairs)
  show "map_of (parse_fastq_pairs rank [''B_1_001.fq.gz'', ''B_2_001.fq.gz'']) =
     map_of [(''B_1_001'', \<lparr>R1 = Some ''B_1_001.fq.gz'', R2 = None\<rparr>),
             (''B_2_001'', \<lparr>R1 = Some ''B_2_001.fq.gz'', R2 = None\<rparr>)]"
    by (rule rule2_no_lane_suffix)
qed

theorem rule_priority_witness:
  "state_after insertion_order [''S_1_R1.fastq.gz'', ''S_1_R2.fastq.gz'', ''T_1.fq'', ''T_2.fq''] (Suc 0) =
     rule_pass insertion_order
       (state_after insertion_order [''S_1_R1.fastq.gz'', ''S_1_R2.fastq.gz'', ''T_1.fq'', ''T_2.fq''] 0)
       (MatePattern ''_R1'' True, MatePattern ''_R2'' True) \<and>
   re_match (MatePattern ''_1'' False) (basename ''T_1.fq'') = Some ''T'' \<and>
   re_match (MatePattern ''_2'' False) (basename ''T_2.fq'') = Some ''T'' \<and>
   ''T_1.fq'' \<in> set (working insertion_order [''S_1_R1.fastq.gz'', ''S_1_R2.fastq.gz'', ''T_1.fq'', ''T_2.fq''] 1) \<and>
   ''T_1.fq'' \<notin> set (working insertion_order [''S_1_R1.fastq.gz'', ''S_1_R2.fastq.gz'', ''T_1.fq'', ''T_2.fq''] 2) \<and>
   ''T_1.fq'' \<notin> set (working insertion_order [''S_1_R1.fastq.gz'', ''S_1_R2.fastq.gz'', ''T_1.fq'', ''T_2.fq''] 3) \<and>
   slot (parse_fastq_pairs insertion_order [''S_1_R1.fastq.gz'', ''S_1_R2.fastq.gz'', ''T_1.fq'', ''T_2.fq''])
     (''T'', Mate2) \<noteq> None \<and>
   re_match (MatePattern ''_R1'' True) (basename ''T_1.fq'') = None \<and>
   re_match (MatePattern ''_R2'' True) (basename ''T_1.fq'') = None"
proof -
  let ?fs = "[''S_1_R1.fastq.gz'', ''S_1_R2.fastq.gz'', ''T_1.fq'', ''T_2.fq'']"
  let ?f = "''T_1.fq''"
  note t = rule_priority[where rank = insertion_order and fs = ?fs]
  have len: "length paired_patterns = 4" by (simp add: paired_patterns_def)
  have p: "paired_patterns ! 0 = (MatePattern ''_R1'' True, MatePattern ''_R2'' True)"
    "paired_patterns ! 1 = (MatePattern ''_1'' False, MatePattern ''_2'' False)"
    by (simp_all add: paired_patterns_def)
  have m: "re_match (MatePattern ''_1'' False) (basename ?f) = Some ''T''"
    "re_match (MatePattern ''_2'' False) (basename ''T_2.fq'') = Some ''T''"
    by (simp_all add: eval_defs)
  have l0: "0 < length paired_patterns" by (simp add: len)
  from t[THEN conjunct2, THEN conjunct2, THEN conjunct1, THEN spec, THEN mp, OF l0]
  have 0: "state_after insertion_order ?fs (Suc 0) =
     rule_pass insertion_order (state_after insertion_order ?fs 0)
       (MatePattern ''_R1'' True, MatePattern ''_R2'' True)"
    unfolding p .
  have h5: "1 < length paired_patterns \<and> ?f \<in> set ?fs \<and> ''T_2.fq'' \<in> set ?fs \<and>
        re_match (fst (paired_patterns ! 1)) (basename ?f) = Some ''T'' \<and>
        re_match (snd (paired_patterns ! 1)) (basename ''T_2.fq'') = Some ''T''"
    unfolding p by (simp add: len m)
  from t[THEN conjunct2, THEN conjunct2, THEN conjunct2, THEN conjunct2, THEN conjunct1,
      THEN spec, THEN spec, THEN spec, THEN spec, THEN mp, OF h5]
  have c: "?f \<in> set (working insertion_order ?fs 1)"
    "?f \<notin> set (working insertion_order ?fs (Suc 1))"
    "slot (parse_fastq_pairs insertion_order ?fs) (''T'', Mate2) \<noteq> None"
    by blast+
  have two: "Suc 1 = (2::nat)" by simp
  have h6: "(1::nat) < 3 \<and> ?f \<in> set (working insertion_order ?fs 1) \<and>
      ?f \<notin> set (working insertion_order ?fs (Suc 1))"
    using c by simp
  from t[THEN conjunct2, THEN conjunct2, THEN conjunct2, THEN conjunct2, THEN conjunct2,
      THEN conjunct1, THEN spec, THEN spec, THEN spec, THEN mp, OF h6]
  have 3: "?f \<notin> set (working insertion_order ?fs 3)" by (rule conjunct1)
  have h7: "1 < length paired_patterns \<and> ?f \<in> set (working insertion_order ?fs 1) \<and>
      ?f \<notin> set (working insertion_order ?fs (Suc 1))"
    using c by (simp add: len)
  from t[THEN conjunct2, THEN conjunct2, THEN conjunct2, THEN conjunct2, THEN conjunct2,
      THEN conjunct2, THEN conjunct1, THEN spec, THEN spec, THEN mp, OF h7]
  have h1: "hits (paired_patterns ! 1) ?f" .
  have h8: "1 < length paired_patterns \<and> 0 < length paired_patterns \<and> (1::nat) \<noteq> 0 \<and>
      hits (paired_patterns ! 1) ?f"
    using h1 by (simp add: len)
  from t[THEN conjunct2, THEN conjunct2, THEN conjunct2, THEN conjunct2, THEN conjunct2,
      THEN conjunct2, THEN conjunct2, THEN conjunct1, THEN spec, THEN spec, THEN spec, THEN mp, OF h8]
  have nh: "\<not> hits (paired_patterns ! 0) ?f" .
  from nh[unfolded p] have n: "re_match (MatePattern ''_R1'' True) (basename ?f) = None"
    "re_match (MatePattern ''_R2'' True) (basename ?f) = None"
    by (simp_all add: hits_def)
  from 0 m c(1) c(2)[unfolded two] 3 c(3) n show ?thesis by (intro conjI)
qed

section \<open>Files left after the rules\<close>

text \<open>
  C5, as stated, fails: a file left in the working set is written to the mate-1 slot of
  the record named by its basename without extension, but that record is not always a
  single-end record holding this file. Here a pair was bound under the same name, and
  the record of the unclaimed file keeps the mate-2 file of the pair.
\<close>

theorem unclaimed_file_in_paired_record:
  "''A.fastq.gz'' \<in> set (unclaimed insertion_order [''A_R1.fastq.gz'', ''A_R2.fastq.gz'', ''A.fastq.gz'']) \<and>
   map_of (parse_fastq_pairs insertion_order [''A_R1.fastq.gz'', ''A_R2.fastq.gz'', ''A.fastq.gz''])
     (single_name ''A.fastq.gz'') =
   Some \<lparr>R1 = Some ''A.fastq.gz'', R2 = Some ''A_R2.fastq.gz''\<rparr>"
  by (simp add: unclaimed_def single_name_def eval_defs)

text \<open>
  C5, amended. In every order, for every file left in the working set after the rules,
  the mate-1 slot of the record named by its basename without the fastq extension holds a file left in
  the working set with that same name, and the file itself when no other file left has
  that name. The last loop sets no mate-2 slot: the mate-2 slots are those that the
  rules left. The name is the basename with the extension \<^verbatim>\<open>.fastq.gz\<close>,
  \<^verbatim>\<open>.fq.gz\<close>, \<^verbatim>\<open>.fastq\<close> or \<^verbatim>\<open>.fq\<close> removed, in this case only. The input
  \<^verbatim>\<open>{"C.fastq.gz"}\<close> gives one record \<^verbatim>\<open>C\<close> with that file as mate 1 and no mate 2.
\<close>

theorem unclaimed_files_are_single_end:
  "(\<forall>f\<in>set (unclaimed rank fs).
      (\<exists>f'\<in>set (unclaimed rank fs). single_name f' = single_name f \<and>
          slot (parse_fastq_pairs rank fs) (single_name f, Mate1) = Some f') \<and>
      ((\<forall>f'\<in>set (unclaimed rank fs). single_name f' = single_name f \<longrightarrow> f' = f) \<longrightarrow>
          slot (parse_fastq_pairs rank fs) (single_name f, Mate1) = Some f)) \<and>
   (\<forall>n. slot (parse_fastq_pairs rank fs) (n, Mate2) = slot (paired_samples rank fs) (n, Mate2)) \<and>
   (\<forall>c. \<forall>e\<in>set fastq_ext. strip_fastq_ext (c @ e) = c) \<and>
   strip_fastq_ext ''C.FASTQ.GZ'' = ''C.FASTQ.GZ'' \<and>
   parse_fastq_pairs rank [''C.fastq.gz''] = [(''C'', \<lparr>R1 = Some ''C.fastq.gz'', R2 = None\<rparr>)]"
proof (intro conjI ballI allI impI)
  fix f assume f: "f \<in> set (unclaimed rank fs)"
  have "find (\<lambda>f'. single_name f' = single_name f) (rev (unclaimed rank fs)) \<noteq> None"
    by (rule find_not_None[of f]) (use f in simp_all)
  then obtain f' where f': "find (\<lambda>f'. single_name f' = single_name f) (rev (unclaimed rank fs)) = Some f'"
    by auto
  from find_SomeD[OF f'] have mem: "f' \<in> set (unclaimed rank fs)" "single_name f' = single_name f"
    by simp_all
  have s: "slot (parse_fastq_pairs rank fs) (single_name f, Mate1) = Some f'"
    by (simp add: parse_fastq_pairs_phases slot_single_end f')
  with mem show "\<exists>f'\<in>set (unclaimed rank fs). single_name f' = single_name f \<and>
          slot (parse_fastq_pairs rank fs) (single_name f, Mate1) = Some f'" by blast
  assume "\<forall>f'\<in>set (unclaimed rank fs). single_name f' = single_name f \<longrightarrow> f' = f"
  with mem have "f' = f" by blast
  with s show "slot (parse_fastq_pairs rank fs) (single_name f, Mate1) = Some f" by simp
next
  fix n show "slot (parse_fastq_pairs rank fs) (n, Mate2) = slot (paired_samples rank fs) (n, Mate2)"
    by (simp add: parse_fastq_pairs_phases slot_single_end)
next
  fix c e assume "e \<in> set fastq_ext"
  then show "strip_fastq_ext (c @ e) = c" by (rule strip_fastq_ext_append)
next
  show "strip_fastq_ext ''C.FASTQ.GZ'' = ''C.FASTQ.GZ''" by (simp add: eval_defs)
  show "parse_fastq_pairs rank [''C.fastq.gz''] = [(''C'', \<lparr>R1 = Some ''C.fastq.gz'', R2 = None\<rparr>)]"
    by (simp add: eval_defs)
qed

theorem unclaimed_files_are_single_end_witness:
  "''reads/C.fq'' \<in> set (unclaimed insertion_order [''reads/A_R1.fq'', ''reads/A_R2.fq'', ''reads/C.fq'']) \<and>
   slot (parse_fastq_pairs insertion_order [''reads/A_R1.fq'', ''reads/A_R2.fq'', ''reads/C.fq''])
     (single_name ''reads/C.fq'', Mate1) = Some ''reads/C.fq'' \<and>
   ''.fq.gz'' \<in> set fastq_ext \<and> strip_fastq_ext (''C'' @ ''.fq.gz'') = ''C''"
proof -
  let ?fs = "[''reads/A_R1.fq'', ''reads/A_R2.fq'', ''reads/C.fq'']"
  have u: "unclaimed insertion_order ?fs = [''reads/C.fq'']" by (simp add: unclaimed_def eval_defs)
  then have h1: "''reads/C.fq'' \<in> set (unclaimed insertion_order ?fs)" by simp
  have h2: "\<forall>f'\<in>set (unclaimed insertion_order ?fs). single_name f' = single_name ''reads/C.fq'' \<longrightarrow> f' = ''reads/C.fq''"
    by (simp add: u)
  have h3: "''.fq.gz'' \<in> set fastq_ext" by (simp add: fastq_ext_def)
  note t = unclaimed_files_are_single_end[of insertion_order ?fs]
  from t[THEN conjunct1, THEN bspec, OF h1, THEN conjunct2, THEN mp, OF h2]
  have 1: "slot (parse_fastq_pairs insertion_order ?fs) (single_name ''reads/C.fq'', Mate1) = Some ''reads/C.fq''" .
  from t[THEN conjunct2, THEN conjunct2, THEN conjunct1, THEN spec, THEN bspec, OF h3]
  have 2: "strip_fastq_ext (''C'' @ ''.fq.gz'') = ''C''" .
  from h1 1 h3 2 show ?thesis by (intro conjI)
qed

section \<open>The resolver never fails\<close>

text \<open>
  C7, as stated, fails in its last part: a file that matches no pattern at all does not
  always yield a single-end record. Here it is written into the record of a pair that
  has its name as stem, and that record keeps its mate-2 file. (No error is raised.)
\<close>

theorem unmatched_file_in_paired_record:
  "completely_unmatched ''sample.fq'' \<and>
   map_of (parse_fastq_pairs insertion_order [''sample_R1.fq'', ''sample_R2.fq'', ''sample.fq''])
     (single_name ''sample.fq'') =
   Some \<lparr>R1 = Some ''sample.fq'', R2 = Some ''sample_R2.fq''\<rparr>"
  by (simp add: completely_unmatched_def hits_def single_name_def eval_defs)

text \<open>
  C7, amended. \<^verbatim>\<open>parse_fastq_pairs\<close> has no failing operation: the model is a total
  function, defined by recursion over the finite working set and the four rules. For
  every input and every order it returns a dictionary (distinct keys, every record with a mate-1 file),
  the empty one for the empty input. A file that matches no pattern of any rule yields
  a record under its basename without extension, whose mate-1 slot holds an input file
  of that name; the record is the single-end record of the file itself when no other
  input file has that name and no pair of input files has it as stem.
\<close>

theorem parse_fastq_pairs_total:
  "parse_fastq_pairs rank [] = [] \<and>
   well_formed (parse_fastq_pairs rank fs) \<and>
   (\<forall>f\<in>set fs. completely_unmatched f \<longrightarrow>
      (\<exists>f'\<in>set fs. single_name f' = single_name f \<and>
         slot (parse_fastq_pairs rank fs) (single_name f, Mate1) = Some f') \<and>
      ((\<forall>g\<in>set fs. single_name g = single_name f \<longrightarrow> g = f) \<and>
       \<not> (\<exists>rule\<in>set paired_patterns. \<exists>f1\<in>set fs. \<exists>f2\<in>set fs.
            re_match (fst rule) (basename f1) = Some (single_name f) \<and>
            re_match (snd rule) (basename f2) = Some (single_name f))
       \<longrightarrow> map_of (parse_fastq_pairs rank fs) (single_name f) = Some \<lparr>R1 = Some f, R2 = None\<rparr>))"
proof (intro conjI ballI impI)
  obtain bs rest where eq: "parse_fastq_pairs rank fs = outcome bs rest"
    and res: "resolution paired_patterns fs bs rest" by (rule parse_fastq_pairs_resolution)
  show "parse_fastq_pairs rank [] = []" by (simp add: eval_defs)
  show wf: "well_formed (parse_fastq_pairs rank fs)"
    by (simp add: eq well_formed_outcome)
  fix f assume f: "f \<in> set fs" and cu: "completely_unmatched f"
  from cu have nh: "\<forall>r\<in>set paired_patterns. \<not> hits r f" by (simp add: completely_unmatched_def)
  have "f \<notin> bound_files bs"
  proof
    assume "f \<in> bound_files bs"
    then consider n g where "(n, f, g) \<in> set bs" | n g where "(n, g, f) \<in> set bs"
      by (auto simp: bound_files_iff)
    then show False
    proof cases
      case 1
      from resolution_binding[OF res 1] nh show False by (auto simp: hits_def)
    next
      case 2
      from resolution_binding[OF res 2] nh show False by (auto simp: hits_def)
    qed
  qed
  with f have u: "f \<in> set rest" by (simp add: resolution_rest[OF res])
  from slot_outcome_unbound[OF u, of bs] obtain f' where
    f': "f' \<in> set rest" "single_name f' = single_name f"
    and s1: "slot (parse_fastq_pairs rank fs) (single_name f, Mate1) = Some f'"
    by (auto simp: eq)
  from f'(1) have mem: "f' \<in> set fs" by (simp add: resolution_rest[OF res])
  with f'(2) s1 show "\<exists>f'\<in>set fs. single_name f' = single_name f \<and>
         slot (parse_fastq_pairs rank fs) (single_name f, Mate1) = Some f'" by blast
  assume a: "(\<forall>g\<in>set fs. single_name g = single_name f \<longrightarrow> g = f) \<and>
       \<not> (\<exists>rule\<in>set paired_patterns. \<exists>f1\<in>set fs. \<exists>f2\<in>set fs.
            re_match (fst rule) (basename f1) = Some (single_name f) \<and>
            re_match (snd rule) (basename f2) = Some (single_name f))"
  with mem f'(2) have "f' = f" by blast
  with s1 have r1: "slot (parse_fastq_pairs rank fs) (single_name f, Mate1) = Some f" by simp
  have "slot (outcome bs rest) (single_name f, Mate2) = None"
  proof (rule ccontr)
    assume "slot (outcome bs rest) (single_name f, Mate2) \<noteq> None"
    from slot_outcome_Mate2_iff[OF res, THEN iffD1, OF this] a show False by blast
  qed
  then have r2: "slot (parse_fastq_pairs rank fs) (single_name f, Mate2) = None"
    by (simp add: eq)
  from r1 obtain r where m: "map_of (parse_fastq_pairs rank fs) (single_name f) = Some r"
    by (auto simp: slot.simps split: option.splits)
  with r1 r2 have "R1 r = Some f" "R2 r = None" by (simp_all add: slot.simps)
  then have "r = \<lparr>R1 = Some f, R2 = None\<rparr>" by simp
  with m show "map_of (parse_fastq_pairs rank fs) (single_name f) = Some \<lparr>R1 = Some f, R2 = None\<rparr>"
    by simp
qed

theorem parse_fastq_pairs_total_witness:
  "''notes/reads.fastq'' \<in> set [''notes/reads.fastq'', ''B_1.fq'', ''B_2.fq''] \<and>
   completely_unmatched ''notes/reads.fastq'' \<and>
   map_of (parse_fastq_pairs insertion_order [''notes/reads.fastq'', ''B_1.fq'', ''B_2.fq''])
     (single_name ''notes/reads.fastq'') = Some \<lparr>R1 = Some ''notes/reads.fastq'', R2 = None\<rparr>"
proof -
  let ?fs = "[''notes/reads.fastq'', ''B_1.fq'', ''B_2.fq'']"
  let ?f = "''notes/reads.fastq''"
  have h1: "?f \<in> set ?fs" by simp
  have h2: "completely_unmatched ?f"
    by (simp add: completely_unmatched_def hits_def eval_defs)
  have n: "single_name ?f = ''reads''" "single_name ''B_1.fq'' = ''B_1''" "single_name ''B_2.fq'' = ''B_2''"
    by (simp_all add: single_name_def eval_defs)
  have h3: "(\<forall>g\<in>set ?fs. single_name g = single_name ?f \<longrightarrow> g = ?f) \<and>
       \<not> (\<exists>rule\<in>set paired_patterns. \<exists>f1\<in>set ?fs. \<exists>f2\<in>set ?fs.
            re_match (fst rule) (basename f1) = Some (single_name ?f) \<and>
            re_match (snd rule) (basename f2) = Some (single_name ?f))"
    unfolding n by (simp add: n eval_defs)
  note t = parse_fastq_pairs_total[of insertion_order ?fs]
  from t[THEN conjunct2, THEN conjunct2, THEN bspec, OF h1, THEN mp, OF h2, THEN conjunct2, THEN mp, OF h3]
    h1 h2
  show ?thesis by (intro conjI)
qed

section \<open>The samplesheet\<close>

text \<open>
  C9. \<^verbatim>\<open>write_samplesheet\<close> writes the header line and then one row for each sample,
  in the lexicographic order of the sample names; every row ends with the one
  strandedness label, and its third field is empty for a record with no mate-2 file.
\<close>

theorem samplesheet_format:
  "write_samplesheet samples strandedness s3_prefix =
     samplesheet samples strandedness s3_prefix \<and>
   samplesheet samples strandedness s3_prefix =
     (''sample,fastq_1,fastq_2,strandedness'' @ [newline])
       @ concat (map (csv_row strandedness s3_prefix) (sort_key fst samples)) \<and>
   sorted (map fst (sort_key fst samples)) \<and>
   mset (sort_key fst samples) = mset samples \<and>
   (\<forall>name r. csv_row strandedness s3_prefix (name, r) =
      name @ '','' @ fastq_1 s3_prefix r @ '','' @ fastq_2 s3_prefix r @ '',''
        @ strandedness @ [newline]) \<and>
   (\<forall>r. R2 r = None \<longrightarrow> fastq_2 s3_prefix r = [])"
proof (intro conjI allI impI)
  show "write_samplesheet samples strandedness s3_prefix =
     samplesheet samples strandedness s3_prefix" by (rule write_samplesheet_eq)
  show "samplesheet samples strandedness s3_prefix =
     (''sample,fastq_1,fastq_2,strandedness'' @ [newline])
       @ concat (map (csv_row strandedness s3_prefix) (sort_key fst samples))"
    by (simp add: samplesheet_def header_def)
  show "sorted (map fst (sort_key fst samples))" by (rule sorted_sort_key)
  show "mset (sort_key fst samples) = mset samples" by simp
next
  fix name r
  show "csv_row strandedness s3_prefix (name, r) =
      name @ '','' @ fastq_1 s3_prefix r @ '','' @ fastq_2 s3_prefix r @ '',''
        @ strandedness @ [newline]" by (simp add: csv_row_def)
next
  fix r :: reads assume "R2 r = None"
  then show "fastq_2 s3_prefix r = []" by (simp add: fastq_2_def)
qed

theorem samplesheet_format_witness:
  "R2 \<lparr>R1 = Some ''C.fq'', R2 = None\<rparr> = None \<and>
   fastq_2 None \<lparr>R1 = Some ''C.fq'', R2 = None\<rparr> = [] \<and>
   write_samplesheet
     [(''C'', \<lparr>R1 = Some ''C.fq'', R2 = None\<rparr>),
      (''A'', \<lparr>R1 = Some ''A_R1.fq'', R2 = Some ''A_R2.fq''\<rparr>)] ''auto'' None =
   ''sample,fastq_1,fastq_2,strandedness'' @ [newline] @
   ''A,A_R1.fq,A_R2.fq,auto'' @ [newline] @
   ''C,C.fq,,auto'' @ [newline]"
proof -
  let ?S = "[(''C'', \<lparr>R1 = Some ''C.fq'', R2 = None\<rparr>),
      (''A'', \<lparr>R1 = Some ''A_R1.fq'', R2 = Some ''A_R2.fq''\<rparr>)]"
  have h: "R2 \<lparr>R1 = Some ''C.fq'', R2 = None\<rparr> = None" by simp
  note t = samplesheet_format[of ?S "''auto''" None]
  from t[THEN conjunct2, THEN conjunct2, THEN conjunct2, THEN conjunct2, THEN conjunct2,
      THEN spec, THEN mp, OF h]
  have 1: "fastq_2 None \<lparr>R1 = Some ''C.fq'', R2 = None\<rparr> = []" .
  have s: "sort_key fst ?S = [(''A'', \<lparr>R1 = Some ''A_R1.fq'', R2 = Some ''A_R2.fq''\<rparr>),
      (''C'', \<lparr>R1 = Some ''C.fq'', R2 = None\<rparr>)]"
    by (simp add: less_eq_char_def)
  from t[THEN conjunct1] t[THEN conjunct2, THEN conjunct1]
  have "write_samplesheet ?S ''auto'' None =
    (''sample,fastq_1,fastq_2,strandedness'' @ [newline])
       @ concat (map (csv_row ''auto'' None) (sort_key fst ?S))" by (rule trans)
  also have "\<dots> = ''sample,fastq_1,fastq_2,strandedness'' @ [newline] @
   ''A,A_R1.fq,A_R2.fq,auto'' @ [newline] @ ''C,C.fq,,auto'' @ [newline]"
    unfolding s by (simp add: csv_row_def fastq_1_def fastq_2_def)
  finally show ?thesis using h 1 by (intro conjI)
qed

text \<open>
  C10. With a prefix mapping, the mate-1 path of every row is rewritten by
  \<^verbatim>\<open>str.replace\<close>, and the mate-2 path is rewritten only when it is not empty. The
  replacement rewrites an occurrence of the local prefix wherever it is in the path, not
  only at its start, and goes on in the rest of the path; a path with no occurrence
  stays as it is.
\<close>

theorem s3_remapping_replaces_every_occurrence:
  "write_samplesheet samples strandedness (Some (local, s3)) =
     header @ concat (map
       (\<lambda>item. fst item @ '','' @
          str_replace local s3 (case R1 (snd item) of None \<Rightarrow> [] | Some p \<Rightarrow> p) @ '','' @
          (case R2 (snd item) of None \<Rightarrow> []
           | Some p \<Rightarrow> if p = [] then [] else str_replace local s3 p) @ '','' @
          strandedness @ [newline])
       (sort_key fst samples)) \<and>
   (\<forall>a b. local \<noteq> [] \<and> \<not> sublist local (a @ butlast local) \<longrightarrow>
      str_replace local s3 (a @ local @ b) = a @ s3 @ str_replace local s3 b) \<and>
   (\<forall>p. \<not> sublist local p \<longrightarrow> str_replace local s3 p = p)"
proof (intro conjI allI impI)
  have "csv_row strandedness (Some (local, s3)) =
    (\<lambda>item. fst item @ '','' @
          str_replace local s3 (case R1 (snd item) of None \<Rightarrow> [] | Some p \<Rightarrow> p) @ '','' @
          (case R2 (snd item) of None \<Rightarrow> []
           | Some p \<Rightarrow> if p = [] then [] else str_replace local s3 p) @ '','' @
          strandedness @ [newline])"
    by (rule ext) (simp add: csv_row_def fastq_1_def fastq_2_def split: option.splits)
  then show "write_samplesheet samples strandedness (Some (local, s3)) =
     header @ concat (map
       (\<lambda>item. fst item @ '','' @
          str_replace local s3 (case R1 (snd item) of None \<Rightarrow> [] | Some p \<Rightarrow> p) @ '','' @
          (case R2 (snd item) of None \<Rightarrow> []
           | Some p \<Rightarrow> if p = [] then [] else str_replace local s3 p) @ '','' @
          strandedness @ [newline])
       (sort_key fst samples))"
    by (simp add: write_samplesheet_eq samplesheet_def)
next
  fix a b assume "local \<noteq> [] \<and> \<not> sublist local (a @ butlast local)"
  then show "str_replace local s3 (a @ local @ b) = a @ s3 @ str_replace local s3 b"
    by (simp add: str_replace_def replace_scan_leftmost)
next
  fix p assume a: "\<not> sublist local p"
  then have "local \<noteq> []" by auto
  with a show "str_replace local s3 p = p" by (simp add: str_replace_def replace_scan_absent)
qed

theorem s3_remapping_replaces_every_occurrence_witness:
  "str_replace ''/data'' ''s3://bucket'' (''/mnt'' @ ''/data'' @ ''/run1/data/A.fq'') =
     ''/mnt'' @ ''s3://bucket'' @ ''/run1'' @ ''s3://bucket'' @ ''/A.fq'' \<and>
   str_replace ''/data'' ''s3://bucket'' ''/home/A.fq'' = ''/home/A.fq''"
proof -
  have h1: "''/data'' \<noteq> [] \<and> \<not> sublist ''/data'' (''/mnt'' @ butlast ''/data'')"
    by (simp add: sublist_Cons_right)
  have h2: "\<not> sublist ''/data'' ''/home/A.fq''" by (simp add: sublist_Cons_right)
  note t = s3_remapping_replaces_every_occurrence[of "[]" "[]" "''/data''" "''s3://bucket''"]
  from t[THEN conjunct2, THEN conjunct1, THEN spec, THEN spec, THEN mp, OF h1]
  have "str_replace ''/data'' ''s3://bucket'' (''/mnt'' @ ''/data'' @ ''/run1/data/A.fq'') =
    ''/mnt'' @ ''s3://bucket'' @ str_replace ''/data'' ''s3://bucket'' ''/run1/data/A.fq''" .
  also have "str_replace ''/data'' ''s3://bucket'' ''/run1/data/A.fq'' = ''/run1'' @ ''s3://bucket'' @ ''/A.fq''"
    by (simp add: str_replace_def)
  finally have 1: "str_replace ''/data'' ''s3://bucket'' (''/mnt'' @ ''/data'' @ ''/run1/data/A.fq'') =
     ''/mnt'' @ ''s3://bucket'' @ ''/run1'' @ ''s3://bucket'' @ ''/A.fq''" .
  from t[THEN conjunct2, THEN conjunct2, THEN spec, THEN mp, OF h2]
  have 2: "str_replace ''/data'' ''s3://bucket'' ''/home/A.fq'' = ''/home/A.fq''" .
  from 1 2 show ?thesis by (intro conjI)
qed

end
